theory Spec2Isabelle
  imports Main
begin

section \<open>JavaScript values and JSON texts\<close>

text \<open>
  The server keeps one untyped document. Its values are JavaScript values: \<open>undefined\<close>,
  \<open>null\<close>, booleans, numbers, strings, arrays and plain objects. An object is the list of its
  own properties in insertion order. Numbers are modelled as integers: every number the
  server computes itself is a reading of \<open>Date.now()\<close>, an epoch-millisecond count.
\<close>

datatype jsval =
    VUndef
  | VNull
  | VBool bool
  | VNum int
  | VStr string
  | VArr "jsval list"
  | VObj "(string \<times> jsval) list"

text \<open>
  The file \<open>database.json\<close> holds a text. A text that \<open>JSON.parse\<close> accepts is modelled by
  its abstract syntax, which has no \<open>undefined\<close>.
\<close>

datatype json =
    JNull
  | JBool bool
  | JNum int
  | JStr string
  | JArr "json list"
  | JObj "(string \<times> json) list"

text \<open>\<open>JSON.parse\<close> on a well-formed text.\<close>

fun JSON_parse :: "json \<Rightarrow> jsval" where
  "JSON_parse JNull = VNull"
| "JSON_parse (JBool b) = VBool b"
| "JSON_parse (JNum n) = VNum n"
| "JSON_parse (JStr s) = VStr s"
| "JSON_parse (JArr js) = VArr (map JSON_parse js)"
| "JSON_parse (JObj kjs) = VObj (map (map_prod id JSON_parse) kjs)"

text \<open>
  \<open>JSON.stringify\<close>: \<open>None\<close> is the result \<open>undefined\<close> (no text). An \<open>undefined\<close> array
  element is written as \<open>null\<close>; a property whose value is \<open>undefined\<close> is left out.
\<close>

definition elem_json :: "json option \<Rightarrow> json" where
  "elem_json r = (case r of None \<Rightarrow> JNull | Some j \<Rightarrow> j)"

definition prop_json :: "string \<times> json option \<Rightarrow> (string \<times> json) list" where
  "prop_json kr = (case snd kr of None \<Rightarrow> [] | Some j \<Rightarrow> [(fst kr, j)])"

fun JSON_stringify :: "jsval \<Rightarrow> json option" where
  "JSON_stringify VUndef = None"
| "JSON_stringify VNull = Some JNull"
| "JSON_stringify (VBool b) = Some (JBool b)"
| "JSON_stringify (VNum n) = Some (JNum n)"
| "JSON_stringify (VStr s) = Some (JStr s)"
| "JSON_stringify (VArr xs) = Some (JArr (map elem_json (map JSON_stringify xs)))"
| "JSON_stringify (VObj kvs) =
     Some (JObj (concat (map prop_json (map (map_prod id JSON_stringify) kvs))))"

text \<open>A value is JSON-representable when \<open>undefined\<close> occurs nowhere in it.\<close>

fun representable :: "jsval \<Rightarrow> bool" where
  "representable VUndef = False"
| "representable (VArr xs) = list_all representable xs"
| "representable (VObj kvs) = list_all representable (map snd kvs)"
| "representable _ = True"

section \<open>Operators of the language\<close>

text \<open>ToBoolean, as used by \<open>if\<close>, \<open>&&\<close>, \<open>||\<close> and \<open>!\<close>.\<close>

fun truthy :: "jsval \<Rightarrow> bool" where
  "truthy VUndef = False"
| "truthy VNull = False"
| "truthy (VBool b) = b"
| "truthy (VNum n) = (n \<noteq> 0)"
| "truthy (VStr s) = (s \<noteq> [])"
| "truthy (VArr xs) = True"
| "truthy (VObj kvs) = True"

definition js_or :: "jsval \<Rightarrow> jsval \<Rightarrow> jsval" where
  "js_or a b = (if truthy a then a else b)"

text \<open>
  Strict equality \<open>===\<close> between a value read from the document and a value that came with
  the request. Arrays and objects are compared by reference, and the two sides were
  allocated by two different calls of the parser, so they are never equal.
\<close>

fun strict_eq :: "jsval \<Rightarrow> jsval \<Rightarrow> bool" where
  "strict_eq (VArr xs) y = False"
| "strict_eq (VObj kvs) y = False"
| "strict_eq x y = (x = y)"

text \<open>
  Property read \<open>v.k\<close>. \<open>None\<close> is the TypeError raised on \<open>undefined\<close> and \<open>null\<close>. The
  keys the server reads (\<open>users\<close>, \<open>email\<close>, \<open>id\<close>, \<open>time\<close>, ...) are not properties of the
  primitive wrappers or of arrays, so those give \<open>undefined\<close>.
\<close>

fun get :: "jsval \<Rightarrow> string \<Rightarrow> jsval option" where
  "get VUndef k = None"
| "get VNull k = None"
| "get (VObj kvs) k = Some (case map_of kvs k of None \<Rightarrow> VUndef | Some v \<Rightarrow> v)"
| "get v k = Some VUndef"

text \<open>Writing an own property: in place when the key exists, at the end otherwise.\<close>

fun put :: "string \<Rightarrow> jsval \<Rightarrow> (string \<times> jsval) list \<Rightarrow> (string \<times> jsval) list" where
  "put k v [] = [(k, v)]"
| "put k v (p # ps) = (if fst p = k then (k, v) # ps else p # put k v ps)"

text \<open>
  Property write \<open>d.k = v\<close>. On \<open>undefined\<close> and \<open>null\<close> it raises; on a primitive it is
  ignored (the module is not in strict mode); on an array it adds a named property, which
  \<open>JSON.stringify\<close> does not write and which no handler reads back.
\<close>

fun set_field :: "jsval \<Rightarrow> string \<Rightarrow> jsval \<Rightarrow> jsval option" where
  "set_field VUndef k v = None"
| "set_field VNull k v = None"
| "set_field (VObj kvs) k v = Some (VObj (put k v kvs))"
| "set_field d k v = Some d"

text \<open>Decimal rendering of a number, as \<open>toString\<close> and template literals produce it.\<close>

fun show_nat :: "nat \<Rightarrow> string" where
  "show_nat n = (if n < 10 then [''0123456789'' ! n]
                 else show_nat (n div 10) @ [''0123456789'' ! (n mod 10)])"

declare show_nat.simps [simp del]

definition show_int :: "int \<Rightarrow> string" where
  "show_int i = (if i < 0 then CHR ''-'' # show_nat (nat (- i)) else show_nat (nat i))"

fun join_comma :: "string list \<Rightarrow> string" where
  "join_comma [] = []"
| "join_comma [s] = s"
| "join_comma (s # t # ss) = s @ '','' @ join_comma (t # ss)"

text \<open>ToString, as applied by template literals and by \<open>String.prototype.concat\<close>.\<close>

fun to_string :: "jsval \<Rightarrow> string" where
  "to_string VUndef = ''undefined''"
| "to_string VNull = ''null''"
| "to_string (VBool b) = (if b then ''true'' else ''false'')"
| "to_string (VNum n) = show_int n"
| "to_string (VStr s) = s"
| "to_string (VArr xs) =
     join_comma (map (\<lambda>x. if x = VUndef \<or> x = VNull then [] else to_string x) xs)"
| "to_string (VObj kvs) = ''[object Object]''"

text \<open>ToNumber, as applied by \<open>>\<close> and \<open><=\<close> against a number; \<open>None\<close> is NaN.\<close>

fun to_number :: "(string \<Rightarrow> int option) \<Rightarrow> jsval \<Rightarrow> int option" where
  "to_number s2n VUndef = None"
| "to_number s2n VNull = Some 0"
| "to_number s2n (VBool b) = Some (if b then 1 else 0)"
| "to_number s2n (VNum n) = Some n"
| "to_number s2n (VStr s) = s2n s"
| "to_number s2n v = s2n (to_string v)"

definition js_gt :: "(string \<Rightarrow> int option) \<Rightarrow> jsval \<Rightarrow> int \<Rightarrow> bool" where
  "js_gt s2n v n = (case to_number s2n v of None \<Rightarrow> False | Some t \<Rightarrow> t > n)"

definition js_le :: "(string \<Rightarrow> int option) \<Rightarrow> jsval \<Rightarrow> int \<Rightarrow> bool" where
  "js_le s2n v n = (case to_number s2n v of None \<Rightarrow> False | Some t \<Rightarrow> t \<le> n)"

text \<open>
  Array methods. The receiver must be an array, otherwise the call raises (\<open>None\<close>); a
  callback that raises aborts the iteration.
\<close>

fun find_list :: "(jsval \<Rightarrow> bool option) \<Rightarrow> jsval list \<Rightarrow> jsval option" where
  "find_list p [] = Some VUndef"
| "find_list p (x # xs) =
     (case p x of None \<Rightarrow> None
      | Some b \<Rightarrow> if b then Some x else find_list p xs)"

fun filter_list :: "(jsval \<Rightarrow> bool option) \<Rightarrow> jsval list \<Rightarrow> jsval list option" where
  "filter_list p [] = Some []"
| "filter_list p (x # xs) =
     (case p x of None \<Rightarrow> None
      | Some b \<Rightarrow> (case filter_list p xs of None \<Rightarrow> None
                  | Some ys \<Rightarrow> Some (if b then x # ys else ys)))"

fun map_list :: "(jsval \<Rightarrow> jsval option) \<Rightarrow> jsval list \<Rightarrow> jsval list option" where
  "map_list f [] = Some []"
| "map_list f (x # xs) =
     (case f x of None \<Rightarrow> None
      | Some y \<Rightarrow> (case map_list f xs of None \<Rightarrow> None | Some ys \<Rightarrow> Some (y # ys)))"

fun js_find :: "(jsval \<Rightarrow> bool option) \<Rightarrow> jsval \<Rightarrow> jsval option" where
  "js_find p (VArr xs) = find_list p xs"
| "js_find p v = None"

fun js_filter :: "(jsval \<Rightarrow> bool option) \<Rightarrow> jsval \<Rightarrow> jsval list option" where
  "js_filter p (VArr xs) = filter_list p xs"
| "js_filter p v = None"

fun js_map :: "(jsval \<Rightarrow> jsval option) \<Rightarrow> jsval \<Rightarrow> jsval list option" where
  "js_map f (VArr xs) = map_list f xs"
| "js_map f v = None"

text \<open>
  \<open>recv.concat(arg)\<close>: arrays append (an array argument is spread), strings concatenate
  the argument's ToString, every other receiver has no such method.
\<close>

fun js_concat :: "jsval \<Rightarrow> jsval \<Rightarrow> jsval option" where
  "js_concat (VArr xs) (VArr ys) = Some (VArr (xs @ ys))"
| "js_concat (VArr xs) v = Some (VArr (xs @ [v]))"
| "js_concat (VStr s) v = Some (VStr (s @ to_string v))"
| "js_concat r v = None"

text \<open>Own enumerable properties, as the spread \<open>{...n}\<close> copies them.\<close>

fun own_props :: "jsval \<Rightarrow> (string \<times> jsval) list" where
  "own_props (VObj kvs) = kvs"
| "own_props (VArr xs) = zip (map show_nat [0 ..< length xs]) xs"
| "own_props (VStr s) = zip (map show_nat [0 ..< length s]) (map (\<lambda>c. VStr [c]) s)"
| "own_props v = []"

section \<open>The server's state\<close>

text \<open>
  The file is absent, holds a text that is not JSON, or holds a JSON text.
\<close>

datatype disk = Absent | Corrupt string | Text json

text \<open>
  What the server does to the outside: broadcasts on the socket hub, calls of the push
  dispatcher, delivery attempts handed to the push library (subscription and encoded
  envelope), and console lines.
\<close>

datatype event =
    Emit string jsval
  | PushDispatch jsval
  | Attempt jsval "json option"
  | Console string

text \<open>
  \<open>db\<close> is the module-level variable. \<open>clock\<close> gives the successive readings of
  \<open>Date.now()\<close> and \<open>reads\<close> counts them; \<open>net\<close> says which delivery attempts the push
  service accepts and \<open>sends\<close> counts them.
\<close>

record state =
  disk :: disk
  db :: jsval
  clock :: "nat \<Rightarrow> int"
  reads :: nat
  net :: "nat \<Rightarrow> bool"
  sends :: nat
  out :: "event list"

text \<open>The environment: the VAPID key pair, and the engine's StringToNumber.\<close>

record config =
  VAPID_PUBLIC :: string
  VAPID_PRIVATE :: string
  StringToNumber :: "string \<Rightarrow> int option"

text \<open>
  A piece of code runs on the state and either returns a value or raises (\<open>None\<close>); the
  state reached is kept in both cases.
\<close>

type_synonym 'a prog = "state \<Rightarrow> 'a option \<times> state"

definition ret :: "'a \<Rightarrow> 'a prog" where
  "ret x s = (Some x, s)"

definition throw :: "'a prog" where
  "throw s = (None, s)"

definition bind :: "'a prog \<Rightarrow> ('a \<Rightarrow> 'b prog) \<Rightarrow> 'b prog" where
  "bind m f s = (case m s of (None, s') \<Rightarrow> (None, s') | (Some x, s') \<Rightarrow> f x s')"

definition lift :: "'a option \<Rightarrow> 'a prog" where
  "lift r = (case r of None \<Rightarrow> throw | Some x \<Rightarrow> ret x)"

definition log :: "event \<Rightarrow> unit prog" where
  "log e s = (Some (), s\<lparr>out := out s @ [e]\<rparr>)"

definition emit :: "string \<Rightarrow> jsval \<Rightarrow> unit prog" where
  "emit name payload = log (Emit name payload)"

definition Date_now :: "int prog" where
  "Date_now s = (Some (clock s (reads s)), s\<lparr>reads := Suc (reads s)\<rparr>)"

fun forEach :: "('a \<Rightarrow> unit prog) \<Rightarrow> 'a list \<Rightarrow> unit prog" where
  "forEach f [] = ret ()"
| "forEach f (x # xs) = bind (f x) (\<lambda>_. forEach f xs)"

fun map_prog :: "('a \<Rightarrow> 'b prog) \<Rightarrow> 'a list \<Rightarrow> 'b list prog" where
  "map_prog f [] = ret []"
| "map_prog f (x # xs) = bind (f x) (\<lambda>y. bind (map_prog f xs) (\<lambda>ys. ret (y # ys)))"

section \<open>The Store\<close>

definition empty :: jsval where
  "empty = VObj [(''users'', VArr []), (''patients'', VArr []), (''caretakers'', VArr []),
     (''notifications'', VArr []), (''locationHistory'', VArr []), (''meds'', VArr []),
     (''journals'', VArr []), (''appointments'', VArr []), (''webpushSubscriptions'', VArr [])]"

text \<open>\<open>fs.writeFileSync\<close> rejects data that is not a string (here: no text).\<close>

definition writeFileSync :: "json option \<Rightarrow> unit prog" where
  "writeFileSync r s = (case r of None \<Rightarrow> (None, s) | Some j \<Rightarrow> (Some (), s\<lparr>disk := Text j\<rparr>))"

definition readDB :: "jsval prog" where
  "readDB s = (case disk s of
       Text j \<Rightarrow> (Some (JSON_parse j), s)
     | _ \<Rightarrow> bind (writeFileSync (JSON_stringify empty)) (\<lambda>_. ret empty) s)"

definition writeDB :: "jsval \<Rightarrow> unit prog" where
  "writeDB data = writeFileSync (JSON_stringify data)"

text \<open>The statements \<open>db = readDB()\<close> and \<open>writeDB(db)\<close>, and reads and writes through \<open>db\<close>.\<close>

definition assign_db :: "jsval \<Rightarrow> unit prog" where
  "assign_db d s = (Some (), s\<lparr>db := d\<rparr>)"

definition the_db :: "jsval prog" where
  "the_db s = (Some (db s), s)"

definition load_db :: "unit prog" where
  "load_db = bind readDB assign_db"

definition save_db :: "unit prog" where
  "save_db = bind the_db writeDB"

definition db_field :: "string \<Rightarrow> jsval prog" where
  "db_field k = bind the_db (\<lambda>d. lift (get d k))"

definition assign_field :: "string \<Rightarrow> jsval \<Rightarrow> unit prog" where
  "assign_field k v = bind the_db (\<lambda>d. bind (lift (set_field d k v)) assign_db)"

text \<open>\<open>db.k.push(v)\<close>: the array is a part of \<open>db\<close> and grows in place.\<close>

definition push_db :: "string \<Rightarrow> jsval \<Rightarrow> unit prog" where
  "push_db k v = bind (db_field k) (\<lambda>a. case a of
       VArr xs \<Rightarrow> assign_field k (VArr (xs @ [v]))
     | _ \<Rightarrow> throw)"

section \<open>The Push Dispatcher\<close>

text \<open>
  \<open>webpush.sendNotification(s, text).catch(...)\<close>: the attempt is handed to the library;
  whether it is delivered is the network's answer. The \<open>catch\<close> turns a rejection into a
  console warning, so the promise placed in the list is fulfilled either way.
\<close>

definition sendNotification :: "jsval \<Rightarrow> json option \<Rightarrow> bool prog" where
  "sendNotification sub text s =
     (Some (net s (sends s)), s\<lparr>sends := Suc (sends s), out := out s @ [Attempt sub text]\<rparr>)"

definition send_caught :: "jsval \<Rightarrow> jsval \<Rightarrow> unit prog" where
  "send_caught payload sub =
     bind (lift (get payload ''message'')) (\<lambda>message.
     bind (sendNotification sub (JSON_stringify
            (VObj [(''title'', VStr ''AlzAssist''), (''body'', message), (''data'', payload)])))
       (\<lambda>delivered. if delivered then ret () else log (Console ''webpush error'')))"

text \<open>
  \<open>sendWebPushNotification\<close> is \<open>async\<close>: it never raises at the call, and \<open>None\<close> here is
  the rejection of the promise it returns. \<open>Promise.allSettled\<close> waits for every entry of
  the list and is fulfilled whatever their outcomes.
\<close>

definition sendWebPushNotification :: "config \<Rightarrow> jsval \<Rightarrow> unit prog" where
  "sendWebPushNotification cfg payload =
     bind (log (PushDispatch payload)) (\<lambda>_.
     bind load_db (\<lambda>_.
     bind (db_field ''webpushSubscriptions'') (\<lambda>w.
     if VAPID_PUBLIC cfg = [] \<or> VAPID_PRIVATE cfg = []
     then log (Console ''VAPID not configured - skipping web-push'')
     else (case js_or w (VArr []) of
             VArr subs \<Rightarrow> bind (map_prog (send_caught payload) subs) (\<lambda>promiseList. ret ())
           | _ \<Rightarrow> throw))))"

text \<open>The call sites: \<open>sendWebPushNotification(n).catch(console.warn)\<close>.\<close>

definition push_caught :: "config \<Rightarrow> jsval \<Rightarrow> unit prog" where
  "push_caught cfg n s =
     (case sendWebPushNotification cfg n s of
        (None, s') \<Rightarrow> log (Console ''TypeError'') s'
      | (Some u, s') \<Rightarrow> (Some (), s'))"

section \<open>Request handlers\<close>

datatype response = Response nat jsval

definition register :: "jsval \<Rightarrow> response prog" where
  "register body =
     bind (lift (get body ''role'')) (\<lambda>role.
     bind (lift (get body ''name'')) (\<lambda>name.
     bind (lift (get body ''email'')) (\<lambda>email.
     bind (lift (get body ''password'')) (\<lambda>password.
     bind load_db (\<lambda>_.
     bind (db_field ''users'') (\<lambda>users.
     bind (lift (js_find (\<lambda>u. map_option (\<lambda>e. strict_eq e email) (get u ''email'')) users))
       (\<lambda>found.
     if truthy found
     then ret (Response 400 (VObj [(''message'', VStr ''Email already exists'')]))
     else
       bind Date_now (\<lambda>t.
       bind (push_db ''users'' (VObj [(''id'', VNum t), (''role'', role), (''name'', name),
               (''email'', email), (''password'', password)])) (\<lambda>_.
       bind save_db (\<lambda>_.
       ret (Response 200 (VObj [(''message'', VStr ''Registered successfully'')]))))))))))))"

definition delete_med :: "string \<Rightarrow> response prog" where
  "delete_med id' =
     bind load_db (\<lambda>_.
     bind (db_field ''meds'') (\<lambda>meds.
     bind (lift (js_filter (\<lambda>m. map_option (\<lambda>i. \<not> strict_eq i (VStr id')) (get m ''id''))
                  (js_or meds (VArr [])))) (\<lambda>kept.
     bind (assign_field ''meds'' (VArr kept)) (\<lambda>_.
     bind save_db (\<lambda>_.
     bind (emit ''medicationUpdate'' (VObj [(''action'', VStr ''removed''), (''id'', VStr id')]))
       (\<lambda>_.
     ret (Response 200 (VObj [(''ok'', VBool True)]))))))))"

definition mark_taken :: "jsval \<Rightarrow> response prog" where
  "mark_taken body =
     bind (lift (get body ''medId'')) (\<lambda>medId.
     bind (lift (get body ''by'')) (\<lambda>by'.
     bind load_db (\<lambda>_.
     bind (db_field ''medHistory'') (\<lambda>h.
     bind Date_now (\<lambda>t1.
     bind Date_now (\<lambda>t2.
     let record = VObj [(''id'', VStr (show_int t1)), (''medId'', medId), (''by'', by'),
                        (''time'', VNum t2)] in
     bind (lift (js_concat (js_or h (VArr [])) record)) (\<lambda>hist.
     bind (assign_field ''medHistory'' hist) (\<lambda>_.
     bind save_db (\<lambda>_.
     bind (emit ''medicationUpdate''
             (VObj [(''action'', VStr ''taken''), (''medId'', medId), (''by'', by')])) (\<lambda>_.
     ret (Response 200 (VObj [(''ok'', VBool True), (''record'', record)]))))))))))))"

text \<open>\<open>n.id === id ? {...n, read: true} : n\<close>\<close>

definition mark_one :: "string \<Rightarrow> jsval \<Rightarrow> jsval option" where
  "mark_one id' n =
     map_option (\<lambda>i. if strict_eq i (VStr id')
                      then VObj (put ''read'' (VBool True) (own_props n)) else n)
       (get n ''id'')"

definition mark_read :: "string \<Rightarrow> response prog" where
  "mark_read id' =
     bind load_db (\<lambda>_.
     bind (db_field ''notifications'') (\<lambda>ns.
     bind (lift (js_map (mark_one id') (js_or ns (VArr [])))) (\<lambda>marked.
     bind (assign_field ''notifications'' (VArr marked)) (\<lambda>_.
     bind save_db (\<lambda>_.
     ret (Response 200 (VObj [(''ok'', VBool True)])))))))"

section \<open>Socket event handlers\<close>

definition on_sos :: "config \<Rightarrow> jsval \<Rightarrow> unit prog" where
  "on_sos cfg payload =
     bind load_db (\<lambda>_.
     bind Date_now (\<lambda>t.
     bind (lift (get payload ''name'')) (\<lambda>name.
     bind (lift (get payload ''from'')) (\<lambda>from'.
     bind (lift (get payload ''time'')) (\<lambda>ptime.
     bind (if truthy ptime then ret ptime else bind Date_now (\<lambda>t2. ret (VNum t2))) (\<lambda>time.
     let n = VObj [(''id'', VNum t), (''type'', VStr ''sos''),
                   (''message'', VStr (''SOS from '' @ to_string (js_or name from'))),
                   (''from'', from'), (''time'', time), (''read'', VBool False)] in
     bind (push_db ''notifications'' n) (\<lambda>_.
     bind save_db (\<lambda>_.
     bind (emit ''sos'' payload) (\<lambda>_.
     bind (emit ''notification'' n) (\<lambda>_.
     push_caught cfg n))))))))))"

definition on_journal :: "config \<Rightarrow> jsval \<Rightarrow> unit prog" where
  "on_journal cfg payload =
     bind load_db (\<lambda>_.
     bind (lift (get payload ''entry'')) (\<lambda>entry.
     bind (push_db ''journals'' entry) (\<lambda>_.
     bind save_db (\<lambda>_.
     bind (emit ''journal'' payload) (\<lambda>_.
     bind Date_now (\<lambda>t.
     bind (lift (get payload ''author'')) (\<lambda>author.
     bind Date_now (\<lambda>t2.
     let n = VObj [(''id'', VNum t), (''type'', VStr ''journal''),
                   (''message'', VStr (''New journal from '' @ to_string author)),
                   (''time'', VNum t2), (''read'', VBool False)] in
     bind (push_db ''notifications'' n) (\<lambda>_.
     bind save_db (\<lambda>_.
     bind (emit ''notification'' n) (\<lambda>_.
     push_caught cfg n)))))))))))"

definition on_medicationUpdate :: "config \<Rightarrow> jsval \<Rightarrow> unit prog" where
  "on_medicationUpdate cfg payload =
     bind (emit ''medicationUpdate'' payload) (\<lambda>_.
     bind Date_now (\<lambda>t.
     bind Date_now (\<lambda>t2.
     let n = VObj [(''id'', VNum t), (''type'', VStr ''med''),
                   (''message'', VStr ''Medication updated''), (''payload'', payload),
                   (''time'', VNum t2), (''read'', VBool False)] in
     bind load_db (\<lambda>_.
     bind (push_db ''notifications'' n) (\<lambda>_.
     bind save_db (\<lambda>_.
     bind (emit ''notification'' n) (\<lambda>_.
     push_caught cfg n)))))))"

section \<open>The Reminder Scanner\<close>

text \<open>The filter's callback: \<open>a.time && a.time > now && a.time <= now + (60 * 1000)\<close>.\<close>

definition due :: "config \<Rightarrow> int \<Rightarrow> jsval \<Rightarrow> bool option" where
  "due cfg now a =
     map_option (\<lambda>t. truthy t \<and> js_gt (StringToNumber cfg) t now
                       \<and> js_le (StringToNumber cfg) t (now + 60 * 1000))
       (get a ''time'')"

definition remind :: "config \<Rightarrow> jsval \<Rightarrow> unit prog" where
  "remind cfg a =
     bind Date_now (\<lambda>t.
     bind (lift (get a ''title'')) (\<lambda>title.
     bind Date_now (\<lambda>t2.
     let n = VObj [(''id'', VStr (show_int t)), (''type'', VStr ''appointment''),
                   (''message'', VStr (''Upcoming: '' @ to_string title)),
                   (''appointment'', a), (''time'', VNum t2), (''read'', VBool False)] in
     bind (push_db ''notifications'' n) (\<lambda>_.
     bind save_db (\<lambda>_.
     bind (emit ''appointmentReminder'' (VObj [(''appointment'', a)])) (\<lambda>_.
     bind (emit ''notification'' n) (\<lambda>_.
     push_caught cfg n)))))))"

definition tick :: "config \<Rightarrow> unit prog" where
  "tick cfg =
     bind load_db (\<lambda>_.
     bind Date_now (\<lambda>now.
     bind (db_field ''appointments'') (\<lambda>appointments.
     bind (if truthy appointments then lift (js_filter (due cfg now) appointments) else ret [])
       (\<lambda>soon.
     forEach (remind cfg) soon))))"

section \<open>Notions used in the statements\<close>

text \<open>
  The document that a load returns in a state, and the text that the file holds after that
  load.
\<close>

definition document :: "state \<Rightarrow> jsval" where
  "document s = (case disk s of Text j \<Rightarrow> JSON_parse j | _ \<Rightarrow> empty)"

definition text_of :: "state \<Rightarrow> json" where
  "text_of s = (case disk s of Text j \<Rightarrow> j | _ \<Rightarrow> elem_json (JSON_stringify empty))"

text \<open>What a later load returns for a value that was written as a part of the document.\<close>

definition saved :: "jsval \<Rightarrow> jsval" where
  "saved v = JSON_parse (elem_json (JSON_stringify v))"

definition nullish :: "jsval \<Rightarrow> bool" where
  "nullish v = (v = VUndef \<or> v = VNull)"

definition is_obj :: "jsval \<Rightarrow> bool" where
  "is_obj v = (case v of VObj kvs \<Rightarrow> True | _ \<Rightarrow> False)"

definition is_prim :: "jsval \<Rightarrow> bool" where
  "is_prim v = (case v of VObj kvs \<Rightarrow> False | VArr xs \<Rightarrow> False | _ \<Rightarrow> True)"

definition field :: "jsval \<Rightarrow> string \<Rightarrow> jsval" where
  "field v k = (case get v k of None \<Rightarrow> VUndef | Some x \<Rightarrow> x)"

definition with_field :: "jsval \<Rightarrow> string \<Rightarrow> jsval \<Rightarrow> jsval" where
  "with_field d k v = (case set_field d k v of None \<Rightarrow> d | Some d' \<Rightarrow> d')"

text \<open>
  The entity sequence under a key, empty when the key is absent. The data model: the
  document is an object, and a sequence is an array of objects (or is absent).
\<close>

definition seq_of :: "jsval \<Rightarrow> string \<Rightarrow> jsval list" where
  "seq_of d k = (case field d k of VArr xs \<Rightarrow> xs | _ \<Rightarrow> [])"

definition entity_seq :: "jsval \<Rightarrow> string \<Rightarrow> bool" where
  "entity_seq d k = (is_obj d \<and> (case field d k of
       VArr xs \<Rightarrow> list_all is_obj xs
     | v \<Rightarrow> \<not> truthy v))"

definition array_seq :: "jsval \<Rightarrow> string \<Rightarrow> bool" where
  "array_seq d k = (is_obj d \<and> (case field d k of
       VArr xs \<Rightarrow> list_all is_obj xs
     | v \<Rightarrow> False))"

definition is_arr :: "jsval \<Rightarrow> bool" where
  "is_arr v = (case v of VArr xs \<Rightarrow> True | _ \<Rightarrow> False)"

text \<open>Parts of the trace: broadcasts, dispatcher calls, delivery attempts.\<close>

fun emitted :: "event list \<Rightarrow> (string \<times> jsval) list" where
  "emitted [] = []"
| "emitted (Emit name v # es) = (name, v) # emitted es"
| "emitted (e # es) = emitted es"

fun dispatched :: "event list \<Rightarrow> jsval list" where
  "dispatched [] = []"
| "dispatched (PushDispatch v # es) = v # dispatched es"
| "dispatched (e # es) = dispatched es"

fun attempted :: "event list \<Rightarrow> (jsval \<times> json option) list" where
  "attempted [] = []"
| "attempted (Attempt sub text # es) = (sub, text) # attempted es"
| "attempted (e # es) = attempted es"

text \<open>The reminder window \<open>(now, now + 60000]\<close>, for an appointment whose time is a number.\<close>

definition in_window :: "int \<Rightarrow> jsval \<Rightarrow> bool" where
  "in_window now a = (case field a ''time'' of VNum t \<Rightarrow> now < t \<and> t \<le> now + 60000 | _ \<Rightarrow> False)"

definition numeric_time :: "jsval \<Rightarrow> bool" where
  "numeric_time a = (case field a ''time'' of VNum t \<Rightarrow> True | v \<Rightarrow> \<not> truthy v)"

text \<open>
  The notification that the scanner builds for appointment \<open>a\<close> when the two clock readings
  are \<open>t\<close> and \<open>t2\<close>, and the notifications for a list of appointments when the readings
  start at the \<open>r\<close>-th one.
\<close>

definition reminder :: "jsval \<Rightarrow> int \<Rightarrow> int \<Rightarrow> jsval" where
  "reminder a t t2 = VObj [(''id'', VStr (show_int t)), (''type'', VStr ''appointment''),
     (''message'', VStr (''Upcoming: '' @ to_string (field a ''title''))),
     (''appointment'', a), (''time'', VNum t2), (''read'', VBool False)]"

fun reminders :: "(nat \<Rightarrow> int) \<Rightarrow> nat \<Rightarrow> jsval list \<Rightarrow> jsval list" where
  "reminders ck r [] = []"
| "reminders ck r (a # as) = reminder a (ck r) (ck (Suc r)) # reminders ck (Suc (Suc r)) as"

definition broadcasts :: "jsval \<Rightarrow> (string \<times> jsval) list" where
  "broadcasts n = [(''appointmentReminder'', VObj [(''appointment'', field n ''appointment'')]),
                   (''notification'', n)]"

definition status :: "response \<Rightarrow> nat" where
  "status r = (case r of Response code body \<Rightarrow> code)"


text \<open>A piece of code that leaves a JSON text in the file whenever it finds one there.\<close>

definition keeps_text :: "'a prog \<Rightarrow> bool" where
  "keeps_text m = (\<forall>s. (\<exists>j. disk s = Text j) \<longrightarrow> (\<exists>j. disk (snd (m s)) = Text j))"

text \<open>Any number of mark-read calls, one after the other.\<close>

definition mark_reads :: "string list \<Rightarrow> state \<Rightarrow> state" where
  "mark_reads ids s = foldl (\<lambda>s' i. snd (mark_read i s')) s ids"

text \<open>The state after the module is loaded: \<open>let db = readDB()\<close>.\<close>

definition boot :: "disk \<Rightarrow> (nat \<Rightarrow> int) \<Rightarrow> (nat \<Rightarrow> bool) \<Rightarrow> state" where
  "boot dk ck nt =
     snd (load_db \<lparr>disk = dk, db = VUndef, clock = ck, reads = 0, net = nt, sends = 0, out = []\<rparr>)"

section \<open>Sample data\<close>

text \<open>A stored document, a running server and two environments, for concrete evaluation.\<close>

definition sample_text :: json where
  "sample_text = JObj
    [(''users'', JArr [JObj [(''id'', JNum 1), (''role'', JStr ''caretaker''),
         (''name'', JStr ''Ann''), (''email'', JStr ''ann@example.org''),
         (''password'', JStr ''pw'')]]),
     (''patients'', JArr []),
     (''caretakers'', JArr []),
     (''notifications'', JArr
        [JObj [(''id'', JStr ''17''), (''type'', JStr ''sos''),
               (''message'', JStr ''SOS from Bob''), (''from'', JStr ''bob''),
               (''time'', JNum 17), (''read'', JBool False)],
         JObj [(''id'', JNum 18), (''type'', JStr ''journal''),
               (''message'', JStr ''New journal from Bob''), (''time'', JNum 18),
               (''read'', JBool False)]]),
     (''locationHistory'', JArr []),
     (''meds'', JArr
        [JObj [(''id'', JStr ''21''), (''name'', JStr ''Aspirin'')],
         JObj [(''id'', JStr ''22''), (''name'', JStr ''Donepezil'')]]),
     (''journals'', JArr []),
     (''appointments'', JArr
        [JObj [(''id'', JStr ''31''), (''title'', JStr ''Doctor''), (''time'', JNum 5030)],
         JObj [(''id'', JStr ''32''), (''title'', JStr ''Dentist''), (''time'', JNum 900000)]]),
     (''webpushSubscriptions'', JArr
        [JObj [(''endpoint'', JStr ''https://push.example/a'')],
         JObj [(''endpoint'', JStr ''https://push.example/b'')]])]"

text \<open>The clock starts at 5000 ms; the push service rejects the first delivery attempt.\<close>

definition sample_state :: state where
  "sample_state = boot (Text sample_text) (\<lambda>k. 5000 + int k) (\<lambda>k. k \<noteq> 0)"

definition with_keys :: config where
  "with_keys = \<lparr>VAPID_PUBLIC = ''BPub'', VAPID_PRIVATE = ''priv'',
                 StringToNumber = (\<lambda>s. None)\<rparr>"

definition without_keys :: config where
  "without_keys = \<lparr>VAPID_PUBLIC = [], VAPID_PRIVATE = [], StringToNumber = (\<lambda>s. None)\<rparr>"

text \<open>A registration request that repeats the stored user's email.\<close>

definition duplicate_request :: jsval where
  "duplicate_request = VObj [(''role'', VStr ''patient''), (''name'', VStr ''Ann B''),
     (''email'', VStr ''ann@example.org''), (''password'', VStr ''secret'')]"


text \<open>A state whose file is not a JSON text.\<close>

definition corrupt_state :: state where
  "corrupt_state = \<lparr>disk = Corrupt ''{users: oops'', db = JSON_parse sample_text,
     clock = (\<lambda>k. 5000 + int k), reads = 0, net = (\<lambda>k. True), sends = 0, out = []\<rparr>"

section \<open>Serialisation\<close>

lemma representable_parse: "representable (JSON_parse j)"
  by (induction j) (auto simp: list_all_iff)

lemma concat_map_single:
  "(\<And>x. x \<in> set xs \<Longrightarrow> f x = [g x]) \<Longrightarrow> concat (map f xs) = map g xs"
  by (induction xs) auto

lemma stringify_parse: "JSON_stringify (JSON_parse j) = Some j"
proof (induction j)
  case (JArr js)
  then have "map (\<lambda>x. elem_json (JSON_stringify (JSON_parse x))) js = js"
    by (intro map_idI) (simp add: elem_json_def)
  then show ?case by (simp add: comp_def)
next
  case (JObj kjs)
  have ih: "JSON_stringify (JSON_parse j) = Some j" if "(k, j) \<in> set kjs" for k j
    using JObj [of "(k, j)" j] that by simp
  have "concat (map (\<lambda>p. prop_json (map_prod id JSON_stringify (map_prod id JSON_parse p))) kjs)
        = map (\<lambda>p. p) kjs"
  proof (rule concat_map_single)
    fix p assume p: "p \<in> set kjs"
    obtain k j where "p = (k, j)" by (cases p)
    with p ih show "prop_json (map_prod id JSON_stringify (map_prod id JSON_parse p)) = [p]"
      by (simp add: prop_json_def)
  qed
  then show ?case by (simp add: comp_def)
qed auto

lemma parse_stringify:
  "representable v \<Longrightarrow> \<exists>j. JSON_stringify v = Some j \<and> JSON_parse j = v"
proof (induction v)
  case (VArr xs)
  then have "map (\<lambda>x. JSON_parse (elem_json (JSON_stringify x))) xs = xs"
    by (intro map_idI) (fastforce simp: elem_json_def list_all_iff)
  then show ?case by (simp add: comp_def)
next
  case (VObj kvs)
  have ih: "\<exists>j. JSON_stringify v = Some j \<and> JSON_parse j = v" if "(k, v) \<in> set kvs" for k v
  proof -
    from that VObj.prems have "representable v" by (force simp: list_all_iff)
    with VObj.IH [of "(k, v)" v] that show ?thesis by simp
  qed
  have "concat (map (\<lambda>p. prop_json (map_prod id JSON_stringify p)) kvs)
        = map (\<lambda>p. (fst p, elem_json (JSON_stringify (snd p)))) kvs"
  proof (rule concat_map_single)
    fix p assume p: "p \<in> set kvs"
    obtain k v where "p = (k, v)" by (cases p)
    with p ih [of k v]
    show "prop_json (map_prod id JSON_stringify p) = [(fst p, elem_json (JSON_stringify (snd p)))]"
      by (auto simp add: prop_json_def elem_json_def)
  qed
  moreover
  have "map (\<lambda>p. map_prod id JSON_parse (fst p, elem_json (JSON_stringify (snd p)))) kvs = kvs"
  proof (rule map_idI)
    fix p assume p: "p \<in> set kvs"
    obtain k v where "p = (k, v)" by (cases p)
    with p ih [of k v]
    show "map_prod id JSON_parse (fst p, elem_json (JSON_stringify (snd p))) = p"
      by (auto simp: elem_json_def)
  qed
  ultimately show ?case by (simp add: comp_def)
qed auto

lemma saved_representable: "representable v \<Longrightarrow> saved v = v"
  using parse_stringify [of v] by (auto simp: saved_def elem_json_def)


lemma saved_VArr: "saved (VArr xs) = VArr (map saved xs)"
  by (simp add: saved_def elem_json_def comp_def)

lemma map_saved_representable: "list_all representable xs \<Longrightarrow> map saved xs = xs"
  by (induction xs) (simp_all add: saved_representable)

lemma stringify_None: "JSON_stringify v = None \<longleftrightarrow> v = VUndef"
  by (cases v) auto

lemma saved_VObj:
  "saved (VObj kvs) =
   VObj (concat (map (\<lambda>p. if snd p = VUndef then [] else [(fst p, saved (snd p))]) kvs))"
proof -
  have "map (map_prod id JSON_parse) (prop_json (map_prod id JSON_stringify p))
        = (if snd p = VUndef then [] else [(fst p, saved (snd p))])" for p
    by (cases p; cases "JSON_stringify (snd p)")
       (auto simp: prop_json_def saved_def elem_json_def stringify_None)
  then have "map (map_prod id JSON_parse) (concat (map (\<lambda>p. prop_json (map_prod id JSON_stringify p)) kvs))
        = concat (map (\<lambda>p. if snd p = VUndef then [] else [(fst p, saved (snd p))]) kvs)"
    by (induction kvs) (simp_all del: map_prod_simp id_apply)
  then show ?thesis
    by (simp add: saved_def elem_json_def comp_def del: map_prod_simp id_apply)
qed

lemma saved_props_representable:
  "list_all representable (map snd kvs) \<Longrightarrow>
   concat (map (\<lambda>p. if snd p = VUndef then [] else [(fst p, saved (snd p))]) kvs) = kvs"
proof (induction kvs)
  case (Cons p kvs)
  then have "representable (snd p)" by simp
  then have "snd p \<noteq> VUndef" "saved (snd p) = snd p"
    by (auto simp: saved_representable)
  with Cons show ?case by simp
qed simp

lemma saved_put:
  "list_all representable (map snd kvs) \<Longrightarrow> v \<noteq> VUndef \<Longrightarrow>
   saved (VObj (put k v kvs)) = VObj (put k (saved v) kvs)"
proof -
  assume r: "list_all representable (map snd kvs)" and v: "v \<noteq> VUndef"
  from r have "concat (map (\<lambda>p. if snd p = VUndef then [] else [(fst p, saved (snd p))]) (put k v kvs))
        = put k (saved v) kvs"
  proof (induction kvs)
    case Nil
    from v show ?case by simp
  next
    case (Cons p kvs)
    then have p: "snd p \<noteq> VUndef" "saved (snd p) = snd p"
      by (auto simp: saved_representable)
    from Cons.prems have tl: "list_all representable (map snd kvs)" by simp
    show ?case
    proof (cases "fst p = k")
      case True
      with v saved_props_representable [OF tl] show ?thesis by simp
    next
      case False
      with p Cons.IH [OF tl] show ?thesis by simp
    qed
  qed
  then show ?thesis by (simp add: saved_VObj)
qed

section \<open>Objects\<close>

lemma get_field: "\<not> nullish v \<Longrightarrow> get v k = Some (field v k)"
  by (cases v) (auto simp: nullish_def field_def)

lemma get_None: "nullish v \<Longrightarrow> get v k = None"
  by (auto simp: nullish_def)

lemma is_obj_not_nullish: "is_obj v \<Longrightarrow> \<not> nullish v"
  by (cases v) (auto simp: nullish_def is_obj_def)

lemma set_field_eq: "\<not> nullish d \<Longrightarrow> set_field d k v = Some (with_field d k v)"
  by (cases d) (auto simp: nullish_def with_field_def)

lemma map_of_put: "map_of (put k v kvs) = (map_of kvs)(k \<mapsto> v)"
  by (induction kvs) (auto simp: fun_eq_iff)

lemma field_with_field:
  "is_obj d \<Longrightarrow> field (with_field d k v) k' = (if k' = k then v else field d k')"
  by (cases d) (auto simp: is_obj_def with_field_def field_def map_of_put)

lemma is_obj_with_field: "is_obj d \<Longrightarrow> is_obj (with_field d k v)"
  by (cases d) (auto simp: is_obj_def with_field_def)

lemma representable_put:
  "list_all representable (map snd kvs) \<Longrightarrow> representable v \<Longrightarrow>
   list_all representable (map snd (put k v kvs))"
  by (induction kvs) auto

lemma representable_with_field:
  "representable d \<Longrightarrow> representable v \<Longrightarrow> representable (with_field d k v)"
  by (cases d) (auto simp: with_field_def representable_put)

lemma with_field_not_undef: "\<not> nullish d \<Longrightarrow> with_field d k v \<noteq> VUndef"
  by (cases d) (auto simp: with_field_def nullish_def)

lemma saved_with_field:
  "is_obj d \<Longrightarrow> representable d \<Longrightarrow> v \<noteq> VUndef \<Longrightarrow>
   saved (with_field d k v) = with_field d k (saved v)"
  by (cases d) (auto simp: is_obj_def with_field_def saved_put)

lemma representable_field:
  "representable d \<Longrightarrow> field d k = VUndef \<or> representable (field d k)"
proof (cases d)
  case (VObj kvs)
  assume "representable d"
  with VObj have "list_all representable (map snd kvs)" by simp
  then have "map_of kvs k = Some v \<Longrightarrow> representable v" for v
    by (induction kvs) (auto split: if_splits)
  with VObj show ?thesis by (auto simp: field_def split: option.splits)
qed (auto simp: field_def)

lemma representable_seq_of: "representable d \<Longrightarrow> list_all representable (seq_of d k)"
  using representable_field [of d k] by (auto simp: seq_of_def split: jsval.splits)

lemma strict_eq_str: "strict_eq x (VStr s) = (x = VStr s)"
  by (cases x) auto

lemma strict_eq_prim: "is_prim e \<Longrightarrow> strict_eq x e = (x = e)"
  by (cases x; cases e) (auto simp: is_prim_def)

section \<open>The Store\<close>

lemma readDB_eq: "readDB s = (Some (document s), s\<lparr>disk := Text (text_of s)\<rparr>)"
  by (cases "disk s")
     (auto simp: readDB_def document_def text_of_def bind_def writeFileSync_def ret_def
        empty_def elem_json_def prop_json_def)

lemma load_db_eq: "load_db s = (Some (), s\<lparr>disk := Text (text_of s), db := document s\<rparr>)"
  by (simp add: load_db_def bind_def readDB_eq assign_db_def)

lemma representable_empty: "representable empty"
  by (simp add: empty_def)

lemma representable_document: "representable (document s)"
  by (cases "disk s") (auto simp: document_def representable_parse representable_empty)

lemma writeDB_eq:
  "v \<noteq> VUndef \<Longrightarrow> writeDB v s = (Some (), s\<lparr>disk := Text (elem_json (JSON_stringify v))\<rparr>)"
  by (cases v) (auto simp: writeDB_def writeFileSync_def elem_json_def)

lemma document_written: "disk s = Text (elem_json (JSON_stringify v)) \<Longrightarrow> document s = saved v"
  by (simp add: document_def saved_def)

lemma document_loaded: "disk s' = Text (text_of s) \<Longrightarrow> document s' = document s"
  by (cases "disk s") (auto simp: document_def text_of_def empty_def elem_json_def prop_json_def)

lemma document_reload [simp]: "document (s\<lparr>disk := Text (text_of s)\<rparr>) = document s"
  by (rule document_loaded) simp

lemma text_of_Text: "disk s = Text j \<Longrightarrow> text_of s = j"
  by (simp add: text_of_def)

lemma document_update [simp]:
  "document (s\<lparr>db := d\<rparr>) = document s"
  "document (s\<lparr>out := es\<rparr>) = document s"
  "document (s\<lparr>reads := r\<rparr>) = document s"
  "document (s\<lparr>sends := n\<rparr>) = document s"
  "document (s\<lparr>net := nt\<rparr>) = document s"
  by (simp_all add: document_def)

lemma text_of_update [simp]:
  "text_of (s\<lparr>db := d\<rparr>) = text_of s"
  "text_of (s\<lparr>out := es\<rparr>) = text_of s"
  "text_of (s\<lparr>reads := r\<rparr>) = text_of s"
  "text_of (s\<lparr>sends := n\<rparr>) = text_of s"
  "text_of (s\<lparr>net := nt\<rparr>) = text_of s"
  by (simp_all add: text_of_def)

lemmas run_defs = bind_def load_db_eq db_field_def the_db_def lift_def ret_def throw_def
   assign_field_def assign_db_def save_db_def emit_def log_def Date_now_def push_db_def

section \<open>The sample state\<close>

lemma sample_clock: "clock sample_state k = 5000 + int k"
  by (simp add: sample_state_def boot_def load_db_eq)

lemma sample_reads: "reads sample_state = 0"
  by (simp add: sample_state_def boot_def load_db_eq)

lemma sample_net: "net sample_state k = (k \<noteq> 0)"
  by (simp add: sample_state_def boot_def load_db_eq)

lemma sample_sends: "sends sample_state = 0"
  by (simp add: sample_state_def boot_def load_db_eq)

lemma sample_out: "out sample_state = []"
  by (simp add: sample_state_def boot_def load_db_eq)

lemma sample_disk: "disk sample_state = Text sample_text"
  by (simp add: sample_state_def boot_def load_db_eq text_of_def)

lemma show_5000: "show_int 5000 = ''5000''"
  by (simp add: show_int_def show_nat.simps)

section \<open>Sequences of entities\<close>

lemma entity_seq_or: "entity_seq d k \<Longrightarrow> js_or (field d k) (VArr []) = VArr (seq_of d k)"
  by (auto simp: entity_seq_def js_or_def seq_of_def split: jsval.splits)

lemma entity_seq_objs: "entity_seq d k \<Longrightarrow> list_all is_obj (seq_of d k)"
  by (auto simp: entity_seq_def seq_of_def split: jsval.splits)

lemma entity_seq_obj: "entity_seq d k \<Longrightarrow> is_obj d"
  by (simp add: entity_seq_def)

lemma filter_list_total:
  "list_all is_obj xs \<Longrightarrow>
   filter_list (\<lambda>m. map_option P (get m k)) xs = Some (filter (\<lambda>m. P (field m k)) xs)"
  by (induction xs) (auto simp: get_field is_obj_not_nullish)

lemma find_list_total:
  "list_all is_obj xs \<Longrightarrow>
   find_list (\<lambda>m. map_option P (get m k)) xs =
   Some (case find (\<lambda>m. P (field m k)) xs of None \<Rightarrow> VUndef | Some u \<Rightarrow> u)"
  by (induction xs) (auto simp: get_field is_obj_not_nullish)

lemma mark_one_obj:
  "is_obj n \<Longrightarrow>
   mark_one i n = Some (if field n ''id'' = VStr i then with_field n ''read'' (VBool True) else n)"
  by (cases n) (auto simp: mark_one_def is_obj_def field_def with_field_def strict_eq_str)

lemma map_list_mark:
  "list_all is_obj xs \<Longrightarrow>
   map_list (mark_one i) xs =
   Some (map (\<lambda>n. if field n ''id'' = VStr i then with_field n ''read'' (VBool True) else n) xs)"
  by (induction xs) (auto simp: mark_one_obj)

lemma seq_of_with_field:
  "is_obj d \<Longrightarrow> seq_of (with_field d k (VArr xs)) k' = (if k' = k then xs else seq_of d k')"
  by (simp add: seq_of_def field_with_field)

section \<open>Deleting a medication\<close>

lemma delete_med_run:
  assumes "entity_seq (document s) ''meds''"
  shows "delete_med i s =
    (Some (Response 200 (VObj [(''ok'', VBool True)])),
     s\<lparr>disk := Text (elem_json (JSON_stringify (with_field (document s) ''meds''
                 (VArr (filter (\<lambda>m. field m ''id'' \<noteq> VStr i) (seq_of (document s) ''meds'')))))),
       db := with_field (document s) ''meds''
                 (VArr (filter (\<lambda>m. field m ''id'' \<noteq> VStr i) (seq_of (document s) ''meds''))),
       out := out s @ [Emit ''medicationUpdate''
                 (VObj [(''action'', VStr ''removed''), (''id'', VStr i)])]\<rparr>)"
proof -
  from assms have nn: "\<not> nullish (document s)"
    by (simp add: entity_seq_def is_obj_not_nullish)
  show ?thesis
    using nn entity_seq_or [OF assms] entity_seq_objs [OF assms]
    by (simp add: delete_med_def run_defs get_field set_field_eq with_field_not_undef
        filter_list_total strict_eq_str writeDB_eq del: get.simps set_field.simps)
qed

text \<open>
  Claim C5. \<open>DELETE /meds/:id\<close> on a document whose medication sequence is a sequence of
  entities: the handler answers \<open>{ok: true}\<close>; the stored medication sequence afterwards
  is the old one without the elements whose id is the given id, the survivors unchanged
  and in order; the set of ids is the old set minus the given id; no other field of the
  document changes.
\<close>

theorem delete_med_removes_exactly_id:
  assumes "entity_seq (document s) ''meds''"
  shows "fst (delete_med i s) = Some (Response 200 (VObj [(''ok'', VBool True)]))
    \<and> seq_of (document (snd (delete_med i s))) ''meds''
        = filter (\<lambda>m. field m ''id'' \<noteq> VStr i) (seq_of (document s) ''meds'')
    \<and> (\<lambda>m. field m ''id'') ` set (seq_of (document (snd (delete_med i s))) ''meds'')
        = (\<lambda>m. field m ''id'') ` set (seq_of (document s) ''meds'') - {VStr i}
    \<and> (\<forall>k. k \<noteq> ''meds'' \<longrightarrow>
          field (document (snd (delete_med i s))) k = field (document s) k)"
proof -
  let ?d = "document s"
  let ?kept = "filter (\<lambda>m. field m ''id'' \<noteq> VStr i) (seq_of ?d ''meds'')"
  let ?s' = "snd (delete_med i s)"
  have obj: "is_obj ?d" using assms by (rule entity_seq_obj)
  have "list_all representable (seq_of ?d ''meds'')"
    by (simp add: representable_seq_of representable_document)
  then have "representable (VArr ?kept)" by (simp add: list_all_iff)
  then have "representable (with_field ?d ''meds'' (VArr ?kept))"
    by (simp add: representable_with_field representable_document)
  moreover have "disk ?s' = Text (elem_json (JSON_stringify (with_field ?d ''meds'' (VArr ?kept))))"
    by (simp add: delete_med_run [OF assms])
  ultimately have doc: "document ?s' = with_field ?d ''meds'' (VArr ?kept)"
    by (simp add: document_written saved_representable)
  have 1: "fst (delete_med i s) = Some (Response 200 (VObj [(''ok'', VBool True)]))"
    by (simp add: delete_med_run [OF assms])
  have 2: "seq_of (document ?s') ''meds'' = ?kept"
    by (simp add: doc seq_of_with_field obj)
  have 3: "(\<lambda>m. field m ''id'') ` set ?kept
           = (\<lambda>m. field m ''id'') ` set (seq_of ?d ''meds'') - {VStr i}"
    by auto
  have 4: "\<forall>k. k \<noteq> ''meds'' \<longrightarrow> field (document ?s') k = field ?d k"
    by (simp add: doc field_with_field obj)
  from 1 2 3 4 show ?thesis by simp
qed

theorem delete_med_removes_exactly_id_witness:
  "entity_seq (document sample_state) ''meds''
   \<and> seq_of (document (snd (delete_med ''21'' sample_state))) ''meds''
       = [VObj [(''id'', VStr ''22''), (''name'', VStr ''Donepezil'')]]
   \<and> field (document (snd (delete_med ''21'' sample_state))) ''users''
       = field (document sample_state) ''users''"
proof -
  have h: "entity_seq (document sample_state) ''meds''" by code_simp
  have e: "filter (\<lambda>m. field m ''id'' \<noteq> VStr ''21'') (seq_of (document sample_state) ''meds'')
      = [VObj [(''id'', VStr ''22''), (''name'', VStr ''Donepezil'')]]" by code_simp
  from delete_med_removes_exactly_id [OF h, of "''21''"] h e show ?thesis by simp
qed

section \<open>Marking a notification read\<close>

lemma mark_read_run:
  assumes "entity_seq (document s) ''notifications''"
  shows "mark_read i s =
    (Some (Response 200 (VObj [(''ok'', VBool True)])),
     s\<lparr>disk := Text (elem_json (JSON_stringify (with_field (document s) ''notifications''
        (VArr (map (\<lambda>n. if field n ''id'' = VStr i then with_field n ''read'' (VBool True) else n)
                 (seq_of (document s) ''notifications'')))))),
       db := with_field (document s) ''notifications''
        (VArr (map (\<lambda>n. if field n ''id'' = VStr i then with_field n ''read'' (VBool True) else n)
                 (seq_of (document s) ''notifications'')))\<rparr>)"
proof -
  from assms have nn: "\<not> nullish (document s)"
    by (simp add: entity_seq_def is_obj_not_nullish)
  show ?thesis
    using nn entity_seq_or [OF assms] entity_seq_objs [OF assms]
    by (simp add: mark_read_def run_defs get_field set_field_eq with_field_not_undef
        map_list_mark writeDB_eq del: get.simps set_field.simps)
qed

lemma mark_read_document:
  assumes "entity_seq (document s) ''notifications''"
  shows "document (snd (mark_read i s)) = with_field (document s) ''notifications''
        (VArr (map (\<lambda>n. if field n ''id'' = VStr i then with_field n ''read'' (VBool True) else n)
                 (seq_of (document s) ''notifications'')))"
proof -
  let ?d = "document s"
  let ?f = "\<lambda>n. if field n ''id'' = VStr i then with_field n ''read'' (VBool True) else n"
  have "list_all representable (seq_of ?d ''notifications'')"
    by (simp add: representable_seq_of representable_document)
  then have "list_all representable (map ?f (seq_of ?d ''notifications''))"
    by (auto simp: list_all_iff representable_with_field)
  then have "representable (with_field ?d ''notifications'' (VArr (map ?f (seq_of ?d ''notifications''))))"
    by (simp add: representable_with_field representable_document)
  moreover have "disk (snd (mark_read i s)) = Text (elem_json (JSON_stringify
       (with_field ?d ''notifications'' (VArr (map ?f (seq_of ?d ''notifications''))))))"
    by (simp add: mark_read_run [OF assms])
  ultimately show ?thesis
    by (simp add: document_written saved_representable)
qed

text \<open>
  Claim C4. \<open>DELETE /notifications/:id\<close> on a document whose notification sequence is a
  sequence of entities: the handler answers \<open>{ok: true}\<close>; the sequence keeps its length;
  a notification whose id is not the given id is unchanged; a notification whose id is the
  given id has \<open>read\<close> true and every other field as before; no other field of the document
  changes.
\<close>

theorem mark_read_changes_only_read:
  assumes "entity_seq (document s) ''notifications''"
  shows "fst (mark_read i s) = Some (Response 200 (VObj [(''ok'', VBool True)]))
    \<and> length (seq_of (document (snd (mark_read i s))) ''notifications'')
        = length (seq_of (document s) ''notifications'')
    \<and> (\<forall>j < length (seq_of (document s) ''notifications'').
         (field (seq_of (document s) ''notifications'' ! j) ''id'' \<noteq> VStr i \<longrightarrow>
            seq_of (document (snd (mark_read i s))) ''notifications'' ! j
              = seq_of (document s) ''notifications'' ! j)
       \<and> (field (seq_of (document s) ''notifications'' ! j) ''id'' = VStr i \<longrightarrow>
            field (seq_of (document (snd (mark_read i s))) ''notifications'' ! j) ''read''
              = VBool True
          \<and> (\<forall>k. k \<noteq> ''read'' \<longrightarrow>
                field (seq_of (document (snd (mark_read i s))) ''notifications'' ! j) k
                  = field (seq_of (document s) ''notifications'' ! j) k)))
    \<and> (\<forall>k. k \<noteq> ''notifications'' \<longrightarrow>
          field (document (snd (mark_read i s))) k = field (document s) k)"
proof -
  let ?d = "document s"
  let ?ns = "seq_of ?d ''notifications''"
  let ?f = "\<lambda>n. if field n ''id'' = VStr i then with_field n ''read'' (VBool True) else n"
  have obj: "is_obj ?d" using assms by (rule entity_seq_obj)
  have objs: "list_all is_obj ?ns" using assms by (rule entity_seq_objs)
  have doc: "document (snd (mark_read i s)) = with_field ?d ''notifications'' (VArr (map ?f ?ns))"
    using assms by (rule mark_read_document)
  have seq: "seq_of (document (snd (mark_read i s))) ''notifications'' = map ?f ?ns"
    by (simp add: doc seq_of_with_field obj)
  have 1: "fst (mark_read i s) = Some (Response 200 (VObj [(''ok'', VBool True)]))"
    by (simp add: mark_read_run [OF assms])
  have 2: "length (map ?f ?ns) = length ?ns" by simp
  have 3: "(field (?ns ! j) ''id'' \<noteq> VStr i \<longrightarrow> map ?f ?ns ! j = ?ns ! j)
       \<and> (field (?ns ! j) ''id'' = VStr i \<longrightarrow>
            field (map ?f ?ns ! j) ''read'' = VBool True
          \<and> (\<forall>k. k \<noteq> ''read'' \<longrightarrow> field (map ?f ?ns ! j) k = field (?ns ! j) k))"
    if "j < length ?ns" for j
  proof -
    from that objs have "is_obj (?ns ! j)" by (simp add: list_all_length)
    with that show ?thesis by (simp add: field_with_field)
  qed
  have 4: "\<forall>k. k \<noteq> ''notifications'' \<longrightarrow> field (document (snd (mark_read i s))) k = field ?d k"
    by (simp add: doc field_with_field obj)
  from 1 2 3 4 show ?thesis unfolding seq by blast
qed

theorem mark_read_changes_only_read_witness:
  "entity_seq (document sample_state) ''notifications''
   \<and> seq_of (document (snd (mark_read ''17'' sample_state))) ''notifications'' ! 1
       = seq_of (document sample_state) ''notifications'' ! 1
   \<and> field (seq_of (document (snd (mark_read ''17'' sample_state))) ''notifications'' ! 0) ''read''
       = VBool True
   \<and> field (seq_of (document (snd (mark_read ''17'' sample_state))) ''notifications'' ! 0) ''message''
       = VStr ''SOS from Bob''
   \<and> field (document (snd (mark_read ''17'' sample_state))) ''meds''
       = field (document sample_state) ''meds''"
proof -
  have h: "entity_seq (document sample_state) ''notifications''" by code_simp
  have l: "(0::nat) < length (seq_of (document sample_state) ''notifications'')
         \<and> (1::nat) < length (seq_of (document sample_state) ''notifications'')" by code_simp
  have a: "field (seq_of (document sample_state) ''notifications'' ! 0) ''id'' = VStr ''17''"
    by code_simp
  have b: "field (seq_of (document sample_state) ''notifications'' ! 1) ''id'' \<noteq> VStr ''17''"
    by code_simp
  have m: "field (seq_of (document sample_state) ''notifications'' ! 0) ''message''
         = VStr ''SOS from Bob''" by code_simp
  from mark_read_changes_only_read [OF h, of "''17''"] h l a b m show ?thesis by simp
qed

section \<open>Marking a medication taken\<close>

lemma js_concat_obj: "js_concat (VArr xs) (VObj kvs) = Some (VArr (xs @ [VObj kvs]))"
  by simp

lemma mark_taken_run:
  assumes "entity_seq (document s) ''medHistory''" and "\<not> nullish body"
  shows "mark_taken body s =
    (Some (Response 200 (VObj [(''ok'', VBool True),
       (''record'', VObj [(''id'', VStr (show_int (clock s (reads s)))),
           (''medId'', field body ''medId''), (''by'', field body ''by''),
           (''time'', VNum (clock s (Suc (reads s))))])])),
     s\<lparr>disk := Text (elem_json (JSON_stringify (with_field (document s) ''medHistory''
        (VArr (seq_of (document s) ''medHistory'' @
           [VObj [(''id'', VStr (show_int (clock s (reads s)))),
              (''medId'', field body ''medId''), (''by'', field body ''by''),
              (''time'', VNum (clock s (Suc (reads s))))]]))))),
       db := with_field (document s) ''medHistory''
        (VArr (seq_of (document s) ''medHistory'' @
           [VObj [(''id'', VStr (show_int (clock s (reads s)))),
              (''medId'', field body ''medId''), (''by'', field body ''by''),
              (''time'', VNum (clock s (Suc (reads s))))]])),
       reads := Suc (Suc (reads s)),
       out := out s @ [Emit ''medicationUpdate'' (VObj [(''action'', VStr ''taken''),
              (''medId'', field body ''medId''), (''by'', field body ''by'')])]\<rparr>)"
proof -
  from assms have nn: "\<not> nullish (document s)"
    by (simp add: entity_seq_def is_obj_not_nullish)
  show ?thesis
    using nn assms(2) entity_seq_or [OF assms(1)]
    by (simp add: mark_taken_def run_defs get_field set_field_eq with_field_not_undef
        Let_def writeDB_eq del: get.simps set_field.simps)
qed

text \<open>
  Claim C10. \<open>POST /meds/mark\<close> with any request body, on a document whose \<open>medHistory\<close> is
  absent or a sequence of entities: the handler answers \<open>{ok: true, record}\<close> with the
  record it created; the stored \<open>medHistory\<close> afterwards is the old one (empty when it was
  absent) followed by that one record as it is saved; no other field of the document
  changes. Nothing is asked of \<open>medId\<close>.
\<close>

theorem mark_taken_appends_one_record:
  assumes "entity_seq (document s) ''medHistory''" and "\<not> nullish body"
  shows "fst (mark_taken body s)
      = Some (Response 200 (VObj [(''ok'', VBool True),
          (''record'', VObj [(''id'', VStr (show_int (clock s (reads s)))),
             (''medId'', field body ''medId''), (''by'', field body ''by''),
             (''time'', VNum (clock s (Suc (reads s))))])]))
    \<and> seq_of (document (snd (mark_taken body s))) ''medHistory''
      = seq_of (document s) ''medHistory'' @
          [saved (VObj [(''id'', VStr (show_int (clock s (reads s)))),
             (''medId'', field body ''medId''), (''by'', field body ''by''),
             (''time'', VNum (clock s (Suc (reads s))))])]
    \<and> (\<forall>k. k \<noteq> ''medHistory'' \<longrightarrow>
          field (document (snd (mark_taken body s))) k = field (document s) k)"
proof -
  let ?d = "document s"
  let ?r = "VObj [(''id'', VStr (show_int (clock s (reads s)))),
             (''medId'', field body ''medId''), (''by'', field body ''by''),
             (''time'', VNum (clock s (Suc (reads s))))]"
  let ?h = "seq_of ?d ''medHistory''"
  have obj: "is_obj ?d" using assms(1) by (rule entity_seq_obj)
  have rep: "list_all representable ?h"
    by (simp add: representable_seq_of representable_document)
  have "disk (snd (mark_taken body s))
        = Text (elem_json (JSON_stringify (with_field ?d ''medHistory'' (VArr (?h @ [?r])))))"
    by (simp add: mark_taken_run [OF assms])
  then have "document (snd (mark_taken body s)) = saved (with_field ?d ''medHistory'' (VArr (?h @ [?r])))"
    by (rule document_written)
  also have "\<dots> = with_field ?d ''medHistory'' (saved (VArr (?h @ [?r])))"
    by (simp add: saved_with_field obj representable_document)
  also have "saved (VArr (?h @ [?r])) = VArr (?h @ [saved ?r])"
    using rep by (simp add: saved_VArr map_saved_representable)
  finally have doc: "document (snd (mark_taken body s))
        = with_field ?d ''medHistory'' (VArr (?h @ [saved ?r]))" .
  have 1: "fst (mark_taken body s) = Some (Response 200 (VObj [(''ok'', VBool True), (''record'', ?r)]))"
    by (simp add: mark_taken_run [OF assms])
  have 2: "seq_of (document (snd (mark_taken body s))) ''medHistory'' = ?h @ [saved ?r]"
    by (simp add: doc seq_of_with_field obj)
  have 3: "\<forall>k. k \<noteq> ''medHistory'' \<longrightarrow> field (document (snd (mark_taken body s))) k = field ?d k"
    by (simp add: doc field_with_field obj)
  from 1 2 3 show ?thesis by simp
qed

theorem mark_taken_appends_one_record_witness:
  "entity_seq (document sample_state) ''medHistory''
   \<and> \<not> nullish (VObj [(''medId'', VStr ''no such medication'')])
   \<and> seq_of (document sample_state) ''medHistory'' = []
   \<and> seq_of (document (snd (mark_taken (VObj [(''medId'', VStr ''no such medication'')])
        sample_state))) ''medHistory''
       = [VObj [(''id'', VStr ''5000''), (''medId'', VStr ''no such medication''),
                (''time'', VNum 5001)]]
   \<and> field (document (snd (mark_taken (VObj [(''medId'', VStr ''no such medication'')])
          sample_state))) ''meds'' = field (document sample_state) ''meds''"
proof -
  have h: "entity_seq (document sample_state) ''medHistory''" by code_simp
  have b: "\<not> nullish (VObj [(''medId'', VStr ''no such medication'')])" by code_simp
  have e: "seq_of (document sample_state) ''medHistory'' = []" by code_simp
  have f: "field (VObj [(''medId'', VStr ''no such medication'')]) ''medId''
             = VStr ''no such medication''
         \<and> field (VObj [(''medId'', VStr ''no such medication'')]) ''by'' = VUndef"
    by code_simp
  have r: "saved (VObj [(''id'', VStr ''5000''), (''medId'', VStr ''no such medication''),
             (''by'', VUndef), (''time'', VNum 5001)])
       = VObj [(''id'', VStr ''5000''), (''medId'', VStr ''no such medication''),
                (''time'', VNum 5001)]" by code_simp
  from mark_taken_appends_one_record [OF h b] h b e f r show ?thesis
    by (simp add: sample_clock sample_reads show_5000)
qed

section \<open>Registration\<close>

lemma seq_of_nonempty: "x \<in> set (seq_of d k) \<Longrightarrow> field d k = VArr (seq_of d k)"
  by (auto simp: seq_of_def split: jsval.splits)

lemma users_stored: "x \<in> set (seq_of (document s) ''users'') \<Longrightarrow> disk s = Text (text_of s)"
  by (cases "disk s") (auto simp: document_def text_of_def seq_of_def field_def empty_def)

lemma find_is_obj:
  "list_all is_obj xs \<Longrightarrow> u \<in> set xs \<Longrightarrow> P u \<Longrightarrow>
   truthy (case find P xs of None \<Rightarrow> VUndef | Some x \<Rightarrow> x)"
proof (induction xs)
  case (Cons x xs)
  then show ?case by (cases x) (auto simp: is_obj_def)
qed simp

lemma register_duplicate_run:
  assumes body: "\<not> nullish body"
    and users: "entity_seq (document s) ''users''"
    and u: "u \<in> set (seq_of (document s) ''users'')"
    and same: "field u ''email'' = field body ''email''"
    and prim: "is_prim (field body ''email'')"
  shows "register body s =
    (Some (Response 400 (VObj [(''message'', VStr ''Email already exists'')])),
     s\<lparr>disk := Text (text_of s), db := document s\<rparr>)"
proof -
  from users have nn: "\<not> nullish (document s)"
    by (simp add: entity_seq_def is_obj_not_nullish)
  have arr: "field (document s) ''users'' = VArr (seq_of (document s) ''users'')"
    using u by (rule seq_of_nonempty)
  have "truthy (case find (\<lambda>m. strict_eq (field m ''email'') (field body ''email''))
                  (seq_of (document s) ''users'') of None \<Rightarrow> VUndef | Some x \<Rightarrow> x)"
    using entity_seq_objs [OF users] u
    by (rule find_is_obj) (simp add: same strict_eq_prim prim)
  then show ?thesis
    using nn body arr entity_seq_objs [OF users]
    by (simp add: register_def run_defs get_field find_list_total del: get.simps)
qed

text \<open>
  Claim C1, as the code has it. A registration request whose email (a string or another
  primitive value) is the email of a stored user is answered with status 400 and the
  message \<open>Email already exists\<close>; the stored user sequence is the same afterwards, and
  the file is not written.
\<close>

theorem register_duplicate_rejected:
  assumes "\<not> nullish body"
    and "entity_seq (document s) ''users''"
    and "u \<in> set (seq_of (document s) ''users'')"
    and "field u ''email'' = field body ''email''"
    and "is_prim (field body ''email'')"
  shows "fst (register body s)
      = Some (Response 400 (VObj [(''message'', VStr ''Email already exists'')]))
    \<and> seq_of (document (snd (register body s))) ''users'' = seq_of (document s) ''users''
    \<and> length (seq_of (document (snd (register body s))) ''users'')
        = length (seq_of (document s) ''users'')
    \<and> disk (snd (register body s)) = disk s"
proof -
  have run: "register body s =
    (Some (Response 400 (VObj [(''message'', VStr ''Email already exists'')])),
     s\<lparr>disk := Text (text_of s), db := document s\<rparr>)"
    using assms by (rule register_duplicate_run)
  have same: "disk s = Text (text_of s)" using assms(3) by (rule users_stored)
  have "document (snd (register body s)) = document s"
    by (rule document_loaded) (simp add: run)
  with run same show ?thesis by simp
qed

theorem register_duplicate_rejected_witness:
  "\<not> nullish duplicate_request
   \<and> entity_seq (document sample_state) ''users''
   \<and> seq_of (document sample_state) ''users'' ! 0 \<in> set (seq_of (document sample_state) ''users'')
   \<and> field (seq_of (document sample_state) ''users'' ! 0) ''email''
       = field duplicate_request ''email''
   \<and> is_prim (field duplicate_request ''email'')
   \<and> fst (register duplicate_request sample_state)
       = Some (Response 400 (VObj [(''message'', VStr ''Email already exists'')]))
   \<and> length (seq_of (document (snd (register duplicate_request sample_state))) ''users'') = 1"
proof -
  have b: "\<not> nullish duplicate_request" by code_simp
  have h: "entity_seq (document sample_state) ''users''" by code_simp
  have u: "seq_of (document sample_state) ''users'' ! 0
           \<in> set (seq_of (document sample_state) ''users'')" by code_simp
  have e: "field (seq_of (document sample_state) ''users'' ! 0) ''email''
           = field duplicate_request ''email''" by code_simp
  have p: "is_prim (field duplicate_request ''email'')" by code_simp
  have l: "length (seq_of (document sample_state) ''users'') = 1" by code_simp
  from register_duplicate_rejected [OF b h u e p] b h u e p l show ?thesis by simp
qed

text \<open>
  The claim names status 409. At the sample state, whose one user has the email
  \<open>ann@example.org\<close>, a request with that email is answered with status 400.
\<close>

theorem register_duplicate_status_counterexample:
  "field (seq_of (document sample_state) ''users'' ! 0) ''email'' = VStr ''ann@example.org''
   \<and> field duplicate_request ''email'' = VStr ''ann@example.org''
   \<and> map_option status (fst (register duplicate_request sample_state)) = Some 400
   \<and> map_option status (fst (register duplicate_request sample_state)) \<noteq> Some 409"
  by code_simp

section \<open>Save, then load\<close>







lemma on_journal_without_entry:
  "field (document (snd (on_journal without_keys (VObj [(''author'', VStr ''Bob'')])
      corrupt_state))) ''journals'' = VArr [VNull]"
  by code_simp

section \<open>Loading writes\<close>

lemma keeps_text_ret: "keeps_text (ret x)"
  by (simp add: keeps_text_def ret_def)

lemma keeps_text_throw: "keeps_text throw"
  by (simp add: keeps_text_def throw_def)

lemma keeps_text_lift: "keeps_text (lift r)"
  by (cases r) (simp_all add: lift_def keeps_text_ret keeps_text_throw)

lemma keeps_text_log: "keeps_text (log e)"
  by (simp add: keeps_text_def log_def)

lemma keeps_text_emit: "keeps_text (emit name v)"
  by (simp add: emit_def keeps_text_log)

lemma keeps_text_Date_now: "keeps_text Date_now"
  by (simp add: keeps_text_def Date_now_def)

lemma keeps_text_assign_db: "keeps_text (assign_db d)"
  by (simp add: keeps_text_def assign_db_def)

lemma keeps_text_the_db: "keeps_text the_db"
  by (simp add: keeps_text_def the_db_def)

lemma keeps_text_writeDB: "keeps_text (writeDB v)"
  by (cases "JSON_stringify v") (simp_all add: keeps_text_def writeDB_def writeFileSync_def)

lemma keeps_text_readDB: "keeps_text readDB"
  by (simp add: keeps_text_def readDB_eq)

lemma keeps_text_sendNotification: "keeps_text (sendNotification sub text)"
  by (simp add: keeps_text_def sendNotification_def)

lemma keeps_text_bind:
  "keeps_text m \<Longrightarrow> (\<And>x. keeps_text (f x)) \<Longrightarrow> keeps_text (bind m f)"
  unfolding keeps_text_def bind_def
  by (metis (mono_tags, lifting) case_prod_beta option.case_eq_if snd_conv)

lemma keeps_text_if:
  "keeps_text a \<Longrightarrow> keeps_text b \<Longrightarrow> keeps_text (if c then a else b)"
  by simp

lemma keeps_text_forEach: "(\<And>x. keeps_text (f x)) \<Longrightarrow> keeps_text (forEach f xs)"
  by (induction xs) (simp_all add: keeps_text_ret keeps_text_bind)

lemma keeps_text_map_prog: "(\<And>x. keeps_text (f x)) \<Longrightarrow> keeps_text (map_prog f xs)"
  by (induction xs) (simp_all add: keeps_text_ret keeps_text_bind)

lemmas keeps_text_basic = keeps_text_ret keeps_text_throw keeps_text_lift keeps_text_log
  keeps_text_emit keeps_text_Date_now keeps_text_assign_db keeps_text_the_db
  keeps_text_writeDB keeps_text_readDB keeps_text_sendNotification keeps_text_bind
  keeps_text_if keeps_text_forEach keeps_text_map_prog

lemma keeps_text_load_db: "keeps_text load_db"
  unfolding load_db_def by (intro keeps_text_basic)

lemma keeps_text_save_db: "keeps_text save_db"
  unfolding save_db_def by (intro keeps_text_basic)

lemma keeps_text_db_field: "keeps_text (db_field k)"
  unfolding db_field_def by (intro keeps_text_basic)

lemma keeps_text_assign_field: "keeps_text (assign_field k v)"
  unfolding assign_field_def by (intro keeps_text_basic)

lemma keeps_text_push_db: "keeps_text (push_db k v)"
proof -
  have "keeps_text (case a of VArr xs \<Rightarrow> assign_field k (VArr (xs @ [v])) | _ \<Rightarrow> throw)" for a
    by (cases a) (simp_all add: keeps_text_throw keeps_text_assign_field)
  then show ?thesis
    unfolding push_db_def by (intro keeps_text_basic keeps_text_db_field)
qed

lemmas keeps_text_store = keeps_text_basic keeps_text_load_db keeps_text_save_db
  keeps_text_db_field keeps_text_assign_field keeps_text_push_db

lemma keeps_text_send_caught: "keeps_text (send_caught payload sub)"
  unfolding send_caught_def by (intro keeps_text_store)

lemma keeps_text_sendWebPushNotification: "keeps_text (sendWebPushNotification cfg payload)"
proof -
  have "keeps_text (case w of VArr subs \<Rightarrow>
           bind (map_prog (send_caught payload) subs) (\<lambda>promiseList. ret ()) | _ \<Rightarrow> throw)" for w
    by (cases w) (simp_all add: keeps_text_store keeps_text_send_caught)
  then show ?thesis
    unfolding sendWebPushNotification_def by (intro keeps_text_store)
qed

lemma keeps_text_push_caught: "keeps_text (push_caught cfg n)"
  using keeps_text_sendWebPushNotification [of cfg n]
  by (auto simp: keeps_text_def push_caught_def log_def split: prod.splits option.splits)

lemmas keeps_text_all = keeps_text_store keeps_text_push_caught

lemma keeps_text_delete_med: "keeps_text (delete_med i)"
  unfolding delete_med_def by (intro keeps_text_all)

lemma keeps_text_mark_read: "keeps_text (mark_read i)"
  unfolding mark_read_def by (intro keeps_text_all)

lemma keeps_text_on_sos: "keeps_text (on_sos cfg payload)"
  unfolding on_sos_def Let_def by (intro keeps_text_all)

lemma keeps_text_on_journal: "keeps_text (on_journal cfg payload)"
  unfolding on_journal_def Let_def by (intro keeps_text_all)

lemma keeps_text_remind: "keeps_text (remind cfg a)"
  unfolding remind_def Let_def by (intro keeps_text_all)

lemma keeps_text_tick: "keeps_text (tick cfg)"
  unfolding tick_def by (intro keeps_text_all keeps_text_remind)

lemma after_load:
  assumes "keeps_text (bind load_db f)"
  shows "\<exists>j. disk (snd (bind load_db f s)) = Text j"
proof -
  have "JSON_parse (elem_json (JSON_stringify empty)) = empty"
    using saved_representable [OF representable_empty] by (simp add: saved_def)
  then have "bind load_db f s = bind load_db f (s\<lparr>disk := Text (text_of s)\<rparr>)"
    by (cases "disk s") (simp_all add: bind_def load_db_eq text_of_def document_def)
  with assms show ?thesis by (simp add: keeps_text_def)
qed

lemma readDB_unreadable:
  assumes "disk s = Absent \<or> disk s = Corrupt t"
  shows "\<exists>j. JSON_stringify empty = Some j \<and> JSON_parse j = empty
           \<and> readDB s = (Some empty, s\<lparr>disk := Text j\<rparr>)"
proof -
  from parse_stringify [OF representable_empty]
  obtain j where j: "JSON_stringify empty = Some j" "JSON_parse j = empty" by blast
  from assms j have "readDB s = (Some empty, s\<lparr>disk := Text j\<rparr>)"
    by (auto simp: readDB_def bind_def writeFileSync_def ret_def)
  with j show ?thesis by blast
qed

text \<open>
  Claim C9. When the file is absent or is not a JSON text, \<open>readDB\<close> returns the empty
  default document, all nine sequences empty, and the state it returns already has the
  file overwritten with the text of that document. So after every operation that begins
  with \<open>db = readDB()\<close> (the two socket handlers, the two delete endpoints, the push
  dispatcher, the reminder scan) the file holds a JSON text, whatever the operation did next:
  the previous content is gone.
\<close>

theorem load_overwrites_unreadable_file:
  assumes "disk s = Absent \<or> disk s = Corrupt t"
  shows "(\<exists>j. JSON_stringify empty = Some j \<and> JSON_parse j = empty
            \<and> readDB s = (Some empty, s\<lparr>disk := Text j\<rparr>))
    \<and> list_all (\<lambda>k. field empty k = VArr [])
         [''users'', ''patients'', ''caretakers'', ''notifications'', ''locationHistory'',
          ''meds'', ''journals'', ''appointments'', ''webpushSubscriptions'']
    \<and> disk (snd (readDB s)) \<noteq> disk s
    \<and> (\<exists>j. disk (snd (on_sos cfg payload s)) = Text j)
    \<and> (\<exists>j. disk (snd (on_journal cfg payload s)) = Text j)
    \<and> (\<exists>j. disk (snd (delete_med i s)) = Text j)
    \<and> (\<exists>j. disk (snd (mark_read i s)) = Text j)
    \<and> (\<exists>j. disk (snd (tick cfg s)) = Text j)
    \<and> (\<exists>j. disk (snd (sendWebPushNotification cfg payload s)) = Text j)"
proof -
  have 1: "\<exists>j. JSON_stringify empty = Some j \<and> JSON_parse j = empty
            \<and> readDB s = (Some empty, s\<lparr>disk := Text j\<rparr>)"
    using assms by (rule readDB_unreadable)
  have 2: "list_all (\<lambda>k. field empty k = VArr [])
         [''users'', ''patients'', ''caretakers'', ''notifications'', ''locationHistory'',
          ''meds'', ''journals'', ''appointments'', ''webpushSubscriptions'']"
    by (simp add: empty_def field_def)
  have 3: "disk (snd (readDB s)) \<noteq> disk s"
    using assms by (auto simp: readDB_eq)
  have 4: "\<exists>j. disk (snd (on_sos cfg payload s)) = Text j"
    using keeps_text_on_sos [of cfg payload] unfolding on_sos_def by (rule after_load)
  have 5: "\<exists>j. disk (snd (on_journal cfg payload s)) = Text j"
    using keeps_text_on_journal [of cfg payload] unfolding on_journal_def by (rule after_load)
  have 6: "\<exists>j. disk (snd (delete_med i s)) = Text j"
    using keeps_text_delete_med [of i] unfolding delete_med_def by (rule after_load)
  have 7: "\<exists>j. disk (snd (mark_read i s)) = Text j"
    using keeps_text_mark_read [of i] unfolding mark_read_def by (rule after_load)
  have 8: "\<exists>j. disk (snd (tick cfg s)) = Text j"
    using keeps_text_tick [of cfg] unfolding tick_def by (rule after_load)
  have "keeps_text (bind load_db (\<lambda>_. bind (db_field ''webpushSubscriptions'') (\<lambda>w.
     if VAPID_PUBLIC cfg = [] \<or> VAPID_PRIVATE cfg = []
     then log (Console ''VAPID not configured - skipping web-push'')
     else (case js_or w (VArr []) of
             VArr subs \<Rightarrow> bind (map_prog (send_caught payload) subs) (\<lambda>promiseList. ret ())
           | _ \<Rightarrow> throw))))" (is "keeps_text (bind load_db ?f)")
  proof -
    have "keeps_text (case w of VArr subs \<Rightarrow>
           bind (map_prog (send_caught payload) subs) (\<lambda>promiseList. ret ()) | _ \<Rightarrow> throw)" for w
      by (cases w) (simp_all add: keeps_text_store keeps_text_send_caught)
    then show ?thesis by (intro keeps_text_store)
  qed
  then have "\<exists>j. disk (snd (bind load_db ?f (s\<lparr>out := out s @ [PushDispatch payload]\<rparr>))) = Text j"
    by (rule after_load)
  then have 9: "\<exists>j. disk (snd (sendWebPushNotification cfg payload s)) = Text j"
    by (simp add: sendWebPushNotification_def bind_def [of "log (PushDispatch payload)"] log_def)
  from 1 2 3 4 5 6 7 8 9 show ?thesis by blast
qed

theorem load_overwrites_unreadable_file_witness:
  "(disk corrupt_state = Absent \<or> disk corrupt_state = Corrupt ''{users: oops'')
   \<and> fst (readDB corrupt_state) = Some empty
   \<and> disk (snd (readDB corrupt_state)) \<noteq> Corrupt ''{users: oops''
   \<and> (\<exists>j. disk (snd (mark_read ''17'' corrupt_state)) = Text j)"
proof -
  have h: "disk corrupt_state = Absent \<or> disk corrupt_state = Corrupt ''{users: oops''"
    by (simp add: corrupt_state_def)
  from load_overwrites_unreadable_file [OF h, of without_keys VNull "''17''"] h
  show ?thesis by auto
qed

section \<open>The Push Dispatcher\<close>

lemma emitted_append: "emitted (xs @ ys) = emitted xs @ emitted ys"
  by (induction xs rule: emitted.induct) simp_all

lemma dispatched_append: "dispatched (xs @ ys) = dispatched xs @ dispatched ys"
  by (induction xs rule: dispatched.induct) simp_all

lemma attempted_append: "attempted (xs @ ys) = attempted xs @ attempted ys"
  by (induction xs rule: attempted.induct) simp_all

lemmas trace_append = emitted_append dispatched_append attempted_append

lemma send_caught_run:
  "\<not> nullish payload \<Longrightarrow>
   send_caught payload sub s =
   (Some (), s\<lparr>sends := Suc (sends s),
      out := out s @ Attempt sub (JSON_stringify (VObj [(''title'', VStr ''AlzAssist''),
                (''body'', field payload ''message''), (''data'', payload)]))
             # (if net s (sends s) then [] else [Console ''webpush error''])\<rparr>)"
  by (simp add: send_caught_def bind_def lift_def ret_def get_field sendNotification_def log_def
      del: get.simps JSON_stringify.simps)

lemma send_caught_nullish: "nullish payload \<Longrightarrow> send_caught payload sub s = (None, s)"
  by (simp add: send_caught_def bind_def lift_def throw_def get_None)

lemma map_prog_send_caught:
  "\<not> nullish payload \<Longrightarrow>
   fst (map_prog (send_caught payload) subs s) \<noteq> None
   \<and> attempted (out (snd (map_prog (send_caught payload) subs s)))
       = attempted (out s) @ map (\<lambda>sub. (sub, JSON_stringify (VObj [(''title'', VStr ''AlzAssist''),
                (''body'', field payload ''message''), (''data'', payload)]))) subs
   \<and> emitted (out (snd (map_prog (send_caught payload) subs s))) = emitted (out s)
   \<and> dispatched (out (snd (map_prog (send_caught payload) subs s))) = dispatched (out s)
   \<and> sends (snd (map_prog (send_caught payload) subs s)) = sends s + length subs
   \<and> disk (snd (map_prog (send_caught payload) subs s)) = disk s
   \<and> db (snd (map_prog (send_caught payload) subs s)) = db s
   \<and> clock (snd (map_prog (send_caught payload) subs s)) = clock s
   \<and> reads (snd (map_prog (send_caught payload) subs s)) = reads s
   \<and> net (snd (map_prog (send_caught payload) subs s)) = net s"
proof (induction subs arbitrary: s)
  case Nil
  show ?case by (simp add: ret_def)
next
  case (Cons sub subs)
  let ?env = "JSON_stringify (VObj [(''title'', VStr ''AlzAssist''),
                (''body'', field payload ''message''), (''data'', payload)])"
  define s1 where "s1 = s\<lparr>sends := Suc (sends s),
      out := out s @ Attempt sub ?env # (if net s (sends s) then [] else [Console ''webpush error''])\<rparr>"
  have one: "send_caught payload sub s = (Some (), s1)"
    using Cons.prems by (simp add: send_caught_run s1_def)
  have s1: "attempted (out s1) = attempted (out s) @ [(sub, ?env)]"
    "emitted (out s1) = emitted (out s)" "dispatched (out s1) = dispatched (out s)"
    "sends s1 = Suc (sends s)" "disk s1 = disk s" "db s1 = db s" "clock s1 = clock s"
    "reads s1 = reads s" "net s1 = net s"
    by (simp_all add: s1_def trace_append del: JSON_stringify.simps)
  note ih = Cons.IH [OF Cons.prems, of s1]
  from ih obtain ys s2 where rest: "map_prog (send_caught payload) subs s1 = (Some ys, s2)"
    by (cases "map_prog (send_caught payload) subs s1") auto
  have all: "map_prog (send_caught payload) (sub # subs) s = (Some (() # ys), s2)"
    by (simp add: bind_def one rest ret_def)
  from ih show ?case
    unfolding all rest by (simp add: s1 del: JSON_stringify.simps)
qed

lemma map_prog_send_caught_nullish:
  "nullish payload \<Longrightarrow>
   map_prog (send_caught payload) subs s = (if subs = [] then (Some [], s) else (None, s))"
  by (cases subs) (simp_all add: ret_def bind_def send_caught_nullish)

text \<open>What the dispatcher leaves alone, whatever the configuration and the document.\<close>

lemma sendWebPushNotification_frame:
  "disk (snd (sendWebPushNotification cfg payload s)) = Text (text_of s)
   \<and> db (snd (sendWebPushNotification cfg payload s)) = document s
   \<and> clock (snd (sendWebPushNotification cfg payload s)) = clock s
   \<and> reads (snd (sendWebPushNotification cfg payload s)) = reads s
   \<and> net (snd (sendWebPushNotification cfg payload s)) = net s
   \<and> emitted (out (snd (sendWebPushNotification cfg payload s))) = emitted (out s)
   \<and> dispatched (out (snd (sendWebPushNotification cfg payload s)))
       = dispatched (out s) @ [payload]"
proof -
  let ?s1 = "s\<lparr>out := out s @ [PushDispatch payload], disk := Text (text_of s), db := document s\<rparr>"
  show ?thesis
  proof (cases "nullish (document s)")
    case True
    then show ?thesis
      by (simp add: sendWebPushNotification_def run_defs get_None trace_append)
  next
    case doc: False
    show ?thesis
    proof (cases "VAPID_PUBLIC cfg = [] \<or> VAPID_PRIVATE cfg = []")
      case True
      with doc show ?thesis
        by (auto simp add: sendWebPushNotification_def run_defs get_field trace_append
            simp del: get.simps)
    next
      case keys: False
      show ?thesis
      proof (cases "js_or (field (document s) ''webpushSubscriptions'') (VArr [])")
        case (VArr subs)
        have run: "sendWebPushNotification cfg payload s
           = bind (map_prog (send_caught payload) subs) (\<lambda>promiseList. ret ()) ?s1"
          using doc keys VArr
          by (simp add: sendWebPushNotification_def run_defs get_field del: get.simps)
        show ?thesis
        proof (cases "nullish payload")
          case True
          then show ?thesis
            unfolding run
            by (simp add: bind_def map_prog_send_caught_nullish ret_def trace_append)
        next
          case False
          from map_prog_send_caught [OF False, of subs ?s1]
          show ?thesis
            unfolding run
            by (auto simp: bind_def ret_def trace_append split: prod.splits option.splits)
        qed
      qed (use doc keys in \<open>simp_all add: sendWebPushNotification_def run_defs get_field
             trace_append del: get.simps\<close>)
    qed
  qed
qed

lemma push_caught_frame:
  "fst (push_caught cfg payload s) = Some ()
   \<and> disk (snd (push_caught cfg payload s)) = Text (text_of s)
   \<and> db (snd (push_caught cfg payload s)) = document s
   \<and> clock (snd (push_caught cfg payload s)) = clock s
   \<and> reads (snd (push_caught cfg payload s)) = reads s
   \<and> net (snd (push_caught cfg payload s)) = net s
   \<and> emitted (out (snd (push_caught cfg payload s))) = emitted (out s)
   \<and> dispatched (out (snd (push_caught cfg payload s))) = dispatched (out s) @ [payload]"
  using sendWebPushNotification_frame [of cfg payload s]
  by (auto simp: push_caught_def log_def trace_append split: prod.splits option.splits)

lemma sendWebPushNotification_configured:
  assumes keys: "VAPID_PUBLIC cfg \<noteq> []" "VAPID_PRIVATE cfg \<noteq> []"
    and subs: "field (document s) ''webpushSubscriptions'' = VArr subs"
    and payload: "\<not> nullish payload"
  shows "fst (sendWebPushNotification cfg payload s) = Some ()
    \<and> attempted (out (snd (sendWebPushNotification cfg payload s)))
        = attempted (out s) @ map (\<lambda>sub. (sub, JSON_stringify (VObj [(''title'', VStr ''AlzAssist''),
                (''body'', field payload ''message''), (''data'', payload)]))) subs"
proof -
  let ?s1 = "s\<lparr>out := out s @ [PushDispatch payload], disk := Text (text_of s), db := document s\<rparr>"
  from subs have doc: "\<not> nullish (document s)"
    by (auto simp: nullish_def field_def)
  have run: "sendWebPushNotification cfg payload s
           = bind (map_prog (send_caught payload) subs) (\<lambda>promiseList. ret ()) ?s1"
    using doc keys subs
    by (simp add: sendWebPushNotification_def run_defs get_field js_or_def del: get.simps)
  from map_prog_send_caught [OF payload, of subs ?s1]
  show ?thesis
    unfolding run
    by (auto simp: bind_def ret_def trace_append split: prod.splits option.splits
             simp del: JSON_stringify.simps)
qed

text \<open>
  Claim C3, as the code has it. When both VAPID keys are configured, for every stored list
  of subscriptions, every notification payload and every behaviour of the push service,
  the dispatcher hands one delivery attempt per stored subscription to the push library,
  in order, each with the encoded envelope, and the promise it returns is fulfilled.
\<close>

theorem dispatch_attempts_every_subscription:
  assumes "VAPID_PUBLIC cfg \<noteq> []" and "VAPID_PRIVATE cfg \<noteq> []"
    and "field (document s) ''webpushSubscriptions'' = VArr subs"
    and "\<not> nullish payload"
  shows "fst (sendWebPushNotification cfg payload (s\<lparr>net := service\<rparr>)) = Some ()
    \<and> attempted (out (snd (sendWebPushNotification cfg payload (s\<lparr>net := service\<rparr>))))
        = attempted (out s) @ map (\<lambda>sub. (sub, JSON_stringify (VObj [(''title'', VStr ''AlzAssist''),
                (''body'', field payload ''message''), (''data'', payload)]))) subs
    \<and> length (attempted (out (snd (sendWebPushNotification cfg payload (s\<lparr>net := service\<rparr>)))))
        = length (attempted (out s)) + length subs"
proof -
  have "field (document (s\<lparr>net := service\<rparr>)) ''webpushSubscriptions'' = VArr subs"
    using assms(3) by simp
  from sendWebPushNotification_configured [OF assms(1,2) this assms(4)]
  show ?thesis by (simp del: JSON_stringify.simps)
qed

theorem dispatch_attempts_every_subscription_witness:
  "VAPID_PUBLIC with_keys \<noteq> [] \<and> VAPID_PRIVATE with_keys \<noteq> []
   \<and> field (document sample_state) ''webpushSubscriptions''
       = VArr [VObj [(''endpoint'', VStr ''https://push.example/a'')],
               VObj [(''endpoint'', VStr ''https://push.example/b'')]]
   \<and> \<not> nullish (VObj [(''message'', VStr ''SOS from Bob'')])
   \<and> fst (sendWebPushNotification with_keys (VObj [(''message'', VStr ''SOS from Bob'')])
        (sample_state\<lparr>net := (\<lambda>k. False)\<rparr>)) = Some ()
   \<and> length (attempted (out (snd (sendWebPushNotification with_keys
        (VObj [(''message'', VStr ''SOS from Bob'')]) (sample_state\<lparr>net := (\<lambda>k. False)\<rparr>))))) = 2"
proof -
  have k: "VAPID_PUBLIC with_keys \<noteq> []" "VAPID_PRIVATE with_keys \<noteq> []"
    by (simp_all add: with_keys_def)
  have d: "field (document sample_state) ''webpushSubscriptions''
       = VArr [VObj [(''endpoint'', VStr ''https://push.example/a'')],
               VObj [(''endpoint'', VStr ''https://push.example/b'')]]" by code_simp
  have p: "\<not> nullish (VObj [(''message'', VStr ''SOS from Bob'')])" by code_simp
  from dispatch_attempts_every_subscription [OF k d p, of "\<lambda>k. False"] k d p
  show ?thesis by (simp add: sample_out del: JSON_stringify.simps)
qed

text \<open>
  The claim speaks of every stored list. Without the VAPID keys the dispatcher attempts
  no delivery: at the sample state two subscriptions are stored and none is tried.
\<close>

theorem dispatch_without_keys_counterexample:
  "length (seq_of (document sample_state) ''webpushSubscriptions'') = 2
   \<and> attempted (out (snd (sendWebPushNotification without_keys
        (VObj [(''message'', VStr ''SOS from Bob'')]) sample_state))) = []"
  by code_simp

lemma sendWebPushNotification_unconfigured:
  assumes "VAPID_PUBLIC cfg = [] \<or> VAPID_PRIVATE cfg = []"
  shows "sendWebPushNotification cfg payload s =
    (if nullish (document s) then None else Some (),
     s\<lparr>out := out s @ PushDispatch payload #
          (if nullish (document s) then []
           else [Console ''VAPID not configured - skipping web-push'']),
       disk := Text (text_of s), db := document s\<rparr>)"
  using assms
  by (cases "nullish (document s)")
     (auto simp add: sendWebPushNotification_def run_defs get_field get_None simp del: get.simps)

lemma document_not_undefined: "document s \<noteq> VUndef"
  using representable_document [of s] by auto

text \<open>
  Claim C7. When a VAPID key is missing, for every payload the dispatcher hands no delivery
  attempt to the push library; the promise it returns is fulfilled (unless the stored
  document is the JSON value \<open>null\<close>, on which the property read raises), and at the call
  sites, where the promise is caught, nothing is raised in any case.
\<close>

theorem dispatch_without_keys_is_noop:
  assumes "VAPID_PUBLIC cfg = [] \<or> VAPID_PRIVATE cfg = []"
  shows "attempted (out (snd (sendWebPushNotification cfg payload s))) = attempted (out s)
    \<and> sends (snd (sendWebPushNotification cfg payload s)) = sends s
    \<and> (document s \<noteq> VNull \<longrightarrow> fst (sendWebPushNotification cfg payload s) = Some ())
    \<and> fst (push_caught cfg payload s) = Some ()
    \<and> attempted (out (snd (push_caught cfg payload s))) = attempted (out s)"
proof -
  note run = sendWebPushNotification_unconfigured [OF assms, of payload s]
  have 1: "attempted (out (snd (sendWebPushNotification cfg payload s))) = attempted (out s)"
    by (simp add: run trace_append)
  have 2: "sends (snd (sendWebPushNotification cfg payload s)) = sends s"
    by (simp add: run)
  have 3: "document s \<noteq> VNull \<longrightarrow> fst (sendWebPushNotification cfg payload s) = Some ()"
    by (simp add: run nullish_def document_not_undefined)
  have 4: "fst (push_caught cfg payload s) = Some ()"
    by (simp add: push_caught_frame)
  have 5: "attempted (out (snd (push_caught cfg payload s))) = attempted (out s)"
    by (simp add: push_caught_def run log_def trace_append)
  from 1 2 3 4 5 show ?thesis by simp
qed

theorem dispatch_without_keys_is_noop_witness:
  "(VAPID_PUBLIC without_keys = [] \<or> VAPID_PRIVATE without_keys = [])
   \<and> document sample_state \<noteq> VNull
   \<and> attempted (out (snd (sendWebPushNotification without_keys
        (VObj [(''message'', VStr ''SOS from Bob'')]) sample_state))) = []
   \<and> fst (sendWebPushNotification without_keys
        (VObj [(''message'', VStr ''SOS from Bob'')]) sample_state) = Some ()"
proof -
  have k: "VAPID_PUBLIC without_keys = [] \<or> VAPID_PRIVATE without_keys = []"
    by (simp add: without_keys_def)
  have d: "document sample_state \<noteq> VNull" by code_simp
  from dispatch_without_keys_is_noop [OF k, of "VObj [(''message'', VStr ''SOS from Bob'')]" sample_state]
    k d
  show ?thesis by (simp add: sample_out)
qed

section \<open>Notifications created by the socket handlers\<close>

lemma array_seq_entity: "array_seq d k \<Longrightarrow> entity_seq d k"
  by (auto simp: array_seq_def entity_seq_def split: jsval.splits)

lemma array_seq_field: "array_seq d k \<Longrightarrow> field d k = VArr (seq_of d k)"
  by (auto simp: array_seq_def seq_of_def split: jsval.splits)

lemma array_seq_obj: "array_seq d k \<Longrightarrow> is_obj d"
  by (simp add: array_seq_def)

lemma array_seq_with_field:
  "is_obj d \<Longrightarrow> list_all is_obj xs \<Longrightarrow> array_seq (with_field d k (VArr xs)) k"
  by (simp add: array_seq_def is_obj_with_field field_with_field)

lemma array_seq_with_other:
  "array_seq d k \<Longrightarrow> k' \<noteq> k \<Longrightarrow> array_seq (with_field d k' v) k"
  by (simp add: array_seq_def is_obj_with_field field_with_field)

lemma is_arr_field: "is_arr (field d k) \<Longrightarrow> field d k = VArr (seq_of d k)"
  by (auto simp: is_arr_def seq_of_def split: jsval.splits)

text \<open>Saving an object none of whose own properties is \<open>undefined\<close>.\<close>

lemma saved_put_defined:
  "list_all (\<lambda>p. snd p \<noteq> VUndef) kvs \<Longrightarrow> v \<noteq> VUndef \<Longrightarrow>
   saved (VObj (put k v kvs)) = with_field (saved (VObj kvs)) k (saved v)"
proof -
  assume d: "list_all (\<lambda>p. snd p \<noteq> VUndef) kvs" and v: "v \<noteq> VUndef"
  let ?f = "\<lambda>p. if snd p = VUndef then [] else [(fst p, saved (snd p))]"
  from d have "concat (map ?f (put k v kvs)) = put k (saved v) (concat (map ?f kvs))"
  proof (induction kvs)
    case Nil
    from v show ?case by simp
  next
    case (Cons p kvs)
    then show ?case using v by (cases "fst p = k") simp_all
  qed
  then show ?thesis by (simp add: saved_VObj with_field_def)
qed

lemma saved_with_field_twice:
  assumes "is_obj d0" and "representable d0" and "v0 \<noteq> VUndef" and "v \<noteq> VUndef"
  shows "saved (with_field (with_field d0 k0 v0) k v)
         = with_field (with_field d0 k0 (saved v0)) k (saved v)"
proof -
  from assms(1) obtain kvs where d0: "d0 = VObj kvs" by (cases d0) (auto simp: is_obj_def)
  with assms(2) have "list_all (\<lambda>p. snd p \<noteq> VUndef) kvs"
    by (auto simp: list_all_iff)
  with assms(3) have "list_all (\<lambda>p. snd p \<noteq> VUndef) (put k0 v0 kvs)"
    by (induction kvs) auto
  with assms(4) d0
  have "saved (with_field (with_field d0 k0 v0) k v)
        = with_field (saved (with_field d0 k0 v0)) k (saved v)"
    by (simp add: with_field_def saved_put_defined)
  with assms(1,2,3) show ?thesis by (simp add: saved_with_field)
qed

lemma field_saved:
  "map_of kvs k = Some v \<Longrightarrow> v \<noteq> VUndef \<Longrightarrow> field (saved (VObj kvs)) k = saved v"
proof -
  assume v: "v \<noteq> VUndef"
  let ?f = "\<lambda>p. if snd p = VUndef then [] else [(fst p, saved (snd p))]"
  have "map_of kvs k = Some v \<Longrightarrow> map_of (concat (map ?f kvs)) k = Some (saved v)"
    using v by (induction kvs) (auto split: if_splits)
  then show "map_of kvs k = Some v \<Longrightarrow> field (saved (VObj kvs)) k = saved v"
    by (simp add: saved_VObj field_def)
qed

lemma is_obj_saved: "is_obj (saved (VObj kvs))"
  by (simp add: saved_VObj is_obj_def)

lemma saved_prim [simp]: "saved (VNum t) = VNum t" "saved (VBool b) = VBool b" "saved (VStr x) = VStr x"
  by (simp_all add: saved_def elem_json_def)

text \<open>The state a handler reaches when it has pushed \<open>n\<close>, saved, and calls the dispatcher.\<close>

lemma after_push:
  assumes run: "h = push_caught cfg n s1"
    and disk: "disk s1 = Text (elem_json (JSON_stringify
                  (with_field d ''notifications'' (VArr (ns @ [VObj kvs])))))"
    and d: "is_obj d" "representable d" and ns: "list_all representable ns"
  shows "fst h = Some ()
    \<and> document (snd h) = with_field d ''notifications'' (VArr (ns @ [saved (VObj kvs)]))"
proof -
  have "disk (snd h) = Text (text_of s1)" by (simp add: run push_caught_frame)
  then have "document (snd h) = document s1" by (rule document_loaded)
  also have "\<dots> = saved (with_field d ''notifications'' (VArr (ns @ [VObj kvs])))"
    using disk by (rule document_written)
  also have "\<dots> = with_field d ''notifications'' (VArr (ns @ [saved (VObj kvs)]))"
    using d ns by (simp add: saved_with_field saved_VArr map_saved_representable)
  finally show ?thesis by (simp add: run push_caught_frame)
qed

lemma on_sos_run:
  assumes "array_seq (document s) ''notifications''" and "\<not> nullish payload"
  shows "\<exists>s1 m f t. on_sos cfg payload s =
      push_caught cfg (VObj [(''id'', VNum (clock s (reads s))), (''type'', VStr ''sos''),
         (''message'', m), (''from'', f), (''time'', t), (''read'', VBool False)]) s1
    \<and> disk s1 = Text (elem_json (JSON_stringify (with_field (document s) ''notifications''
         (VArr (seq_of (document s) ''notifications'' @
           [VObj [(''id'', VNum (clock s (reads s))), (''type'', VStr ''sos''),
              (''message'', m), (''from'', f), (''time'', t), (''read'', VBool False)]])))))"
proof -
  from assms(1) have nn: "\<not> nullish (document s)"
    by (simp add: array_seq_def is_obj_not_nullish)
  show ?thesis
    using nn assms(2) array_seq_field [OF assms(1)]
    apply (simp add: on_sos_def run_defs get_field set_field_eq with_field_not_undef
        Let_def writeDB_eq del: get.simps set_field.simps to_string.simps JSON_stringify.simps)
    apply (intro conjI impI exI)
       apply (rule refl)
      apply simp
     apply (rule refl)
    apply simp
    done
qed

lemma on_medicationUpdate_run:
  assumes "array_seq (document s) ''notifications''"
  shows "\<exists>s1. on_medicationUpdate cfg payload s =
      push_caught cfg (VObj [(''id'', VNum (clock s (reads s))), (''type'', VStr ''med''),
         (''message'', VStr ''Medication updated''), (''payload'', payload),
         (''time'', VNum (clock s (Suc (reads s)))), (''read'', VBool False)]) s1
    \<and> disk s1 = Text (elem_json (JSON_stringify (with_field (document s) ''notifications''
         (VArr (seq_of (document s) ''notifications'' @
           [VObj [(''id'', VNum (clock s (reads s))), (''type'', VStr ''med''),
              (''message'', VStr ''Medication updated''), (''payload'', payload),
              (''time'', VNum (clock s (Suc (reads s)))), (''read'', VBool False)]])))))"
proof -
  from assms(1) have nn: "\<not> nullish (document s)"
    by (simp add: array_seq_def is_obj_not_nullish)
  show ?thesis
    using nn array_seq_field [OF assms(1)]
    apply (simp add: on_medicationUpdate_def run_defs get_field set_field_eq with_field_not_undef
        Let_def writeDB_eq del: get.simps set_field.simps to_string.simps JSON_stringify.simps)
    apply (intro conjI impI exI)
     apply (rule refl)
    apply simp
    done
qed

lemma on_journal_run:
  assumes "array_seq (document s) ''notifications''"
    and "is_arr (field (document s) ''journals'')"
    and "\<not> nullish payload"
  shows "\<exists>s1 m. on_journal cfg payload s =
      push_caught cfg (VObj [(''id'', VNum (clock s (reads s))), (''type'', VStr ''journal''),
         (''message'', m), (''time'', VNum (clock s (Suc (reads s)))),
         (''read'', VBool False)]) s1
    \<and> disk s1 = Text (elem_json (JSON_stringify
         (with_field (with_field (document s) ''journals''
              (VArr (seq_of (document s) ''journals'' @ [field payload ''entry''])))
            ''notifications''
            (VArr (seq_of (document s) ''notifications'' @
              [VObj [(''id'', VNum (clock s (reads s))), (''type'', VStr ''journal''),
                 (''message'', m), (''time'', VNum (clock s (Suc (reads s)))),
                 (''read'', VBool False)]])))))"
proof -
  from assms(1) have obj: "is_obj (document s)" by (rule array_seq_obj)
  then have nn: "\<not> nullish (document s)" by (rule is_obj_not_nullish)
  have nn2: "\<not> nullish (with_field (document s) ''journals'' v)" for v
    using obj by (simp add: is_obj_with_field is_obj_not_nullish)
  show ?thesis
    using nn nn2 obj assms(3) array_seq_field [OF assms(1)] is_arr_field [OF assms(2)]
    apply (simp add: on_journal_def run_defs get_field set_field_eq with_field_not_undef
        field_with_field
        Let_def writeDB_eq del: get.simps set_field.simps to_string.simps JSON_stringify.simps)
    apply (intro conjI impI exI)
     apply (rule refl)
    apply simp
    done
qed

lemma after_push_journal:
  assumes run: "h = push_caught cfg n s1"
    and disk: "disk s1 = Text (elem_json (JSON_stringify
                  (with_field (with_field d ''journals'' (VArr js))
                     ''notifications'' (VArr (ns @ [VObj kvs])))))"
    and d: "is_obj d" "representable d" and ns: "list_all representable ns"
  shows "fst h = Some ()
    \<and> document (snd h) = with_field (with_field d ''journals'' (saved (VArr js)))
          ''notifications'' (VArr (ns @ [saved (VObj kvs)]))"
proof -
  have "disk (snd h) = Text (text_of s1)" by (simp add: run push_caught_frame)
  then have "document (snd h) = document s1" by (rule document_loaded)
  also have "\<dots> = saved (with_field (with_field d ''journals'' (VArr js))
                     ''notifications'' (VArr (ns @ [VObj kvs])))"
    using disk by (rule document_written)
  also have "\<dots> = with_field (with_field d ''journals'' (saved (VArr js)))
          ''notifications'' (saved (VArr (ns @ [VObj kvs])))"
    using d by (simp add: saved_with_field_twice)
  also have "saved (VArr (ns @ [VObj kvs])) = VArr (ns @ [saved (VObj kvs)])"
    using ns by (simp add: saved_VArr map_saved_representable)
  finally show ?thesis by (simp add: run push_caught_frame)
qed

lemma appended_notification:
  assumes "array_seq d ''notifications''" and "is_obj d'"
    and "map_of kvs ''id'' = Some (VNum t)" and "map_of kvs ''read'' = Some (VBool False)"
    and "doc = with_field d' ''notifications'' (VArr (seq_of d ''notifications'' @ [saved (VObj kvs)]))"
  shows "array_seq doc ''notifications''
    \<and> (\<exists>n. seq_of doc ''notifications'' = seq_of d ''notifications'' @ [n]
           \<and> field n ''id'' = VNum t \<and> field n ''read'' = VBool False)"
proof -
  have "list_all is_obj (seq_of d ''notifications'' @ [saved (VObj kvs)])"
    using assms(1) by (simp add: entity_seq_objs array_seq_entity is_obj_saved)
  with assms(2,5) have 1: "array_seq doc ''notifications''"
    by (simp add: array_seq_with_field)
  have 2: "seq_of doc ''notifications'' = seq_of d ''notifications'' @ [saved (VObj kvs)]"
    using assms(2,5) by (simp add: seq_of_with_field)
  have 3: "field (saved (VObj kvs)) ''id'' = VNum t"
    using field_saved [OF assms(3)] by simp
  have 4: "field (saved (VObj kvs)) ''read'' = VBool False"
    using field_saved [OF assms(4)] by simp
  from 1 2 3 4 show ?thesis by simp
qed

lemma on_sos_creates:
  assumes "array_seq (document s) ''notifications''" and "\<not> nullish payload"
  shows "fst (on_sos cfg payload s) = Some ()
    \<and> array_seq (document (snd (on_sos cfg payload s))) ''notifications''
    \<and> (\<exists>n. seq_of (document (snd (on_sos cfg payload s))) ''notifications''
              = seq_of (document s) ''notifications'' @ [n]
           \<and> field n ''id'' = VNum (clock s (reads s)) \<and> field n ''read'' = VBool False)"
proof -
  let ?d = "document s"
  from on_sos_run [OF assms, of cfg] obtain s1 m f t where
    run: "on_sos cfg payload s =
      push_caught cfg (VObj [(''id'', VNum (clock s (reads s))), (''type'', VStr ''sos''),
         (''message'', m), (''from'', f), (''time'', t), (''read'', VBool False)]) s1"
    and disk: "disk s1 = Text (elem_json (JSON_stringify (with_field ?d ''notifications''
         (VArr (seq_of ?d ''notifications'' @
           [VObj [(''id'', VNum (clock s (reads s))), (''type'', VStr ''sos''),
              (''message'', m), (''from'', f), (''time'', t), (''read'', VBool False)]])))))"
    by blast
  have obj: "is_obj ?d" using assms(1) by (rule array_seq_obj)
  note fin = after_push [OF run disk obj representable_document
      representable_seq_of [OF representable_document]]
  from appended_notification [OF assms(1) obj _ _ conjunct2 [OF fin]] fin
  show ?thesis by simp
qed

lemma on_medicationUpdate_creates:
  assumes "array_seq (document s) ''notifications''"
  shows "fst (on_medicationUpdate cfg payload s) = Some ()
    \<and> array_seq (document (snd (on_medicationUpdate cfg payload s))) ''notifications''
    \<and> (\<exists>n. seq_of (document (snd (on_medicationUpdate cfg payload s))) ''notifications''
              = seq_of (document s) ''notifications'' @ [n]
           \<and> field n ''id'' = VNum (clock s (reads s)) \<and> field n ''read'' = VBool False)"
proof -
  let ?d = "document s"
  from on_medicationUpdate_run [OF assms, of cfg payload] obtain s1 where
    run: "on_medicationUpdate cfg payload s =
      push_caught cfg (VObj [(''id'', VNum (clock s (reads s))), (''type'', VStr ''med''),
         (''message'', VStr ''Medication updated''), (''payload'', payload),
         (''time'', VNum (clock s (Suc (reads s)))), (''read'', VBool False)]) s1"
    and disk: "disk s1 = Text (elem_json (JSON_stringify (with_field ?d ''notifications''
         (VArr (seq_of ?d ''notifications'' @
           [VObj [(''id'', VNum (clock s (reads s))), (''type'', VStr ''med''),
              (''message'', VStr ''Medication updated''), (''payload'', payload),
              (''time'', VNum (clock s (Suc (reads s)))), (''read'', VBool False)]])))))"
    by blast
  have obj: "is_obj ?d" using assms(1) by (rule array_seq_obj)
  note fin = after_push [OF run disk obj representable_document
      representable_seq_of [OF representable_document]]
  from appended_notification [OF assms(1) obj _ _ conjunct2 [OF fin]] fin
  show ?thesis by simp
qed

lemma on_journal_creates:
  assumes "array_seq (document s) ''notifications''"
    and "is_arr (field (document s) ''journals'')"
    and "\<not> nullish payload"
  shows "fst (on_journal cfg payload s) = Some ()
    \<and> array_seq (document (snd (on_journal cfg payload s))) ''notifications''
    \<and> (\<exists>n. seq_of (document (snd (on_journal cfg payload s))) ''notifications''
              = seq_of (document s) ''notifications'' @ [n]
           \<and> field n ''id'' = VNum (clock s (reads s)) \<and> field n ''read'' = VBool False)"
proof -
  let ?d = "document s"
  from on_journal_run [OF assms, of cfg] obtain s1 m where
    run: "on_journal cfg payload s =
      push_caught cfg (VObj [(''id'', VNum (clock s (reads s))), (''type'', VStr ''journal''),
         (''message'', m), (''time'', VNum (clock s (Suc (reads s)))),
         (''read'', VBool False)]) s1"
    and disk: "disk s1 = Text (elem_json (JSON_stringify
         (with_field (with_field ?d ''journals''
              (VArr (seq_of ?d ''journals'' @ [field payload ''entry''])))
            ''notifications''
            (VArr (seq_of ?d ''notifications'' @
              [VObj [(''id'', VNum (clock s (reads s))), (''type'', VStr ''journal''),
                 (''message'', m), (''time'', VNum (clock s (Suc (reads s)))),
                 (''read'', VBool False)]])))))"
    by blast
  have obj: "is_obj ?d" using assms(1) by (rule array_seq_obj)
  note fin = after_push_journal [OF run disk obj representable_document
      representable_seq_of [OF representable_document]]
  have obj': "is_obj (with_field ?d ''journals''
      (saved (VArr (seq_of ?d ''journals'' @ [field payload ''entry'']))))"
    using obj by (rule is_obj_with_field)
  from appended_notification [OF assms(1) obj' _ _ conjunct2 [OF fin]] fin
  show ?thesis by simp
qed

lemma mark_read_keeps:
  assumes "array_seq (document s) ''notifications''"
    and "j < length (seq_of (document s) ''notifications'')"
    and "field (seq_of (document s) ''notifications'' ! j) ''id'' = VNum t"
  shows "array_seq (document (snd (mark_read i s))) ''notifications''
    \<and> length (seq_of (document (snd (mark_read i s))) ''notifications'')
        = length (seq_of (document s) ''notifications'')
    \<and> seq_of (document (snd (mark_read i s))) ''notifications'' ! j
        = seq_of (document s) ''notifications'' ! j"
proof -
  let ?d = "document s"
  let ?ns = "seq_of ?d ''notifications''"
  let ?f = "\<lambda>n. if field n ''id'' = VStr i then with_field n ''read'' (VBool True) else n"
  have obj: "is_obj ?d" using assms(1) by (rule array_seq_obj)
  have objs: "list_all is_obj ?ns" using assms(1) by (simp add: entity_seq_objs array_seq_entity)
  have doc: "document (snd (mark_read i s)) = with_field ?d ''notifications'' (VArr (map ?f ?ns))"
    using assms(1) by (simp add: mark_read_document array_seq_entity)
  from objs have "list_all is_obj (map ?f ?ns)"
    by (auto simp: list_all_iff is_obj_with_field)
  with obj have 1: "array_seq (document (snd (mark_read i s))) ''notifications''"
    by (simp add: doc array_seq_with_field)
  have 2: "seq_of (document (snd (mark_read i s))) ''notifications'' = map ?f ?ns"
    by (simp add: doc seq_of_with_field obj)
  from assms(2,3) have 3: "map ?f ?ns ! j = ?ns ! j" by simp
  from 1 2 3 show ?thesis by simp
qed

lemma mark_reads_keeps:
  assumes "array_seq (document s) ''notifications''"
    and "j < length (seq_of (document s) ''notifications'')"
    and "field (seq_of (document s) ''notifications'' ! j) ''id'' = VNum t"
  shows "seq_of (document (mark_reads ids s)) ''notifications'' ! j
        = seq_of (document s) ''notifications'' ! j"
  using assms
proof (induction ids arbitrary: s)
  case Nil
  show ?case by (simp add: mark_reads_def)
next
  case (Cons i ids)
  note keep = mark_read_keeps [OF Cons.prems, of i]
  have "mark_reads (i # ids) s = mark_reads ids (snd (mark_read i s))"
    by (simp add: mark_reads_def)
  moreover have "seq_of (document (mark_reads ids (snd (mark_read i s)))) ''notifications'' ! j
      = seq_of (document (snd (mark_read i s))) ''notifications'' ! j"
    using keep Cons.prems by (intro Cons.IH) simp_all
  ultimately show ?case using keep by simp
qed

text \<open>
  Claim C8. Each of the socket handlers \<open>sos\<close>, \<open>journal\<close> and \<open>medicationUpdate\<close> completes
  and appends one notification to the stored sequence; its id is a number (the reading of
  the clock) and its \<open>read\<close> is false. After any number of \<open>DELETE /notifications/:id\<close> calls,
  with any ids, the stored notification at that position is still the same, so its \<open>read\<close>
  is still false: the route parameter is a string and is never strictly equal to a number.
\<close>

theorem socket_notifications_stay_unread:
  assumes "array_seq (document s) ''notifications''"
    and "is_arr (field (document s) ''journals'')"
    and "\<not> nullish payload"
    and "h = on_sos cfg payload \<or> h = on_journal cfg payload \<or> h = on_medicationUpdate cfg payload"
  shows "fst (h s) = Some ()
    \<and> (\<exists>n. seq_of (document (snd (h s))) ''notifications''
              = seq_of (document s) ''notifications'' @ [n]
           \<and> field n ''id'' = VNum (clock s (reads s))
           \<and> field n ''read'' = VBool False
           \<and> (\<forall>ids. seq_of (document (mark_reads ids (snd (h s)))) ''notifications''
                        ! length (seq_of (document s) ''notifications'') = n))"
proof -
  have created: "fst (h s) = Some ()
    \<and> array_seq (document (snd (h s))) ''notifications''
    \<and> (\<exists>n. seq_of (document (snd (h s))) ''notifications''
              = seq_of (document s) ''notifications'' @ [n]
           \<and> field n ''id'' = VNum (clock s (reads s)) \<and> field n ''read'' = VBool False)"
    using assms(4) on_sos_creates [OF assms(1,3), of cfg]
      on_journal_creates [OF assms(1,2,3), of cfg]
      on_medicationUpdate_creates [OF assms(1), of cfg payload]
    by blast
  then obtain n where n: "seq_of (document (snd (h s))) ''notifications''
              = seq_of (document s) ''notifications'' @ [n]"
      "field n ''id'' = VNum (clock s (reads s))" "field n ''read'' = VBool False"
    by blast
  let ?j = "length (seq_of (document s) ''notifications'')"
  have "seq_of (document (mark_reads ids (snd (h s)))) ''notifications'' ! ?j = n" for ids
  proof -
    have "seq_of (document (mark_reads ids (snd (h s)))) ''notifications'' ! ?j
        = seq_of (document (snd (h s))) ''notifications'' ! ?j"
      using created n by (intro mark_reads_keeps [where t = "clock s (reads s)"]) simp_all
    with n show ?thesis by simp
  qed
  with created n show ?thesis by blast
qed

theorem socket_notifications_stay_unread_witness:
  "array_seq (document sample_state) ''notifications''
   \<and> is_arr (field (document sample_state) ''journals'')
   \<and> \<not> nullish (VObj [(''from'', VStr ''bob''), (''name'', VStr ''Bob'')])
   \<and> fst (on_sos without_keys (VObj [(''from'', VStr ''bob''), (''name'', VStr ''Bob'')])
        sample_state) = Some ()
   \<and> field (seq_of (document (mark_reads [''5000'', ''17'']
        (snd (on_sos without_keys (VObj [(''from'', VStr ''bob''), (''name'', VStr ''Bob'')])
           sample_state)))) ''notifications'' ! 2) ''read'' = VBool False"
proof -
  have a: "array_seq (document sample_state) ''notifications''" by code_simp
  have b: "is_arr (field (document sample_state) ''journals'')" by code_simp
  have c: "\<not> nullish (VObj [(''from'', VStr ''bob''), (''name'', VStr ''Bob'')])" by code_simp
  have l: "length (seq_of (document sample_state) ''notifications'') = 2" by code_simp
  from socket_notifications_stay_unread [OF a b c, of
      "on_sos without_keys (VObj [(''from'', VStr ''bob''), (''name'', VStr ''Bob'')])"
      without_keys] a b c l
  show ?thesis by auto
qed

section \<open>The Reminder Scanner\<close>

lemma due_in_window:
  assumes "is_obj a" and "numeric_time a" and "0 \<le> now"
  shows "due cfg now a = Some (in_window now a)"
proof -
  from assms(1) have g: "get a ''time'' = Some (field a ''time'')"
    by (simp add: get_field is_obj_not_nullish)
  show ?thesis
    using assms(2,3) unfolding due_def g
    by (cases "field a ''time''")
       (auto simp: numeric_time_def in_window_def js_gt_def js_le_def)
qed

lemma filter_list_due:
  "list_all is_obj as \<Longrightarrow> list_all numeric_time as \<Longrightarrow> 0 \<le> now \<Longrightarrow>
   filter_list (due cfg now) as = Some (filter (in_window now) as)"
  by (induction as) (simp_all add: due_in_window)

lemma text_of_document: "text_of s = elem_json (JSON_stringify (document s))"
  by (cases "disk s")
     (simp_all add: text_of_def document_def stringify_parse elem_json_def)

lemma put_put: "put k v (put k w kvs) = put k v kvs"
  by (induction kvs) auto

lemma with_field_twice:
  "is_obj d \<Longrightarrow> with_field (with_field d k w) k v = with_field d k v"
  by (cases d) (auto simp: is_obj_def with_field_def put_put)

lemma representable_reminder: "representable a \<Longrightarrow> representable (reminder a t t2)"
  by (simp add: reminder_def)

lemma field_reminder: "field (reminder a t t2) ''appointment'' = a"
  by (simp add: reminder_def field_def)

lemma is_obj_reminder: "is_obj (reminder a t t2)"
  by (simp add: reminder_def is_obj_def)

text \<open>One turn of the loop, from a state whose \<open>db\<close> is the stored document.\<close>

lemma remind_step:
  assumes db: "db s = document s"
    and ns: "array_seq (document s) ''notifications''"
    and a: "is_obj a" "representable a"
  shows "fst (remind cfg a s) = Some ()
    \<and> db (snd (remind cfg a s)) = document (snd (remind cfg a s))
    \<and> document (snd (remind cfg a s)) = with_field (document s) ''notifications''
         (VArr (seq_of (document s) ''notifications''
                @ [reminder a (clock s (reads s)) (clock s (Suc (reads s)))]))
    \<and> reads (snd (remind cfg a s)) = Suc (Suc (reads s))
    \<and> clock (snd (remind cfg a s)) = clock s
    \<and> emitted (out (snd (remind cfg a s)))
        = emitted (out s) @ broadcasts (reminder a (clock s (reads s)) (clock s (Suc (reads s))))
    \<and> dispatched (out (snd (remind cfg a s)))
        = dispatched (out s) @ [reminder a (clock s (reads s)) (clock s (Suc (reads s)))]"
proof -
  let ?d = "document s"
  let ?n = "reminder a (clock s (reads s)) (clock s (Suc (reads s)))"
  let ?d' = "with_field ?d ''notifications'' (VArr (seq_of ?d ''notifications'' @ [?n]))"
  have obj: "is_obj ?d" using ns by (rule array_seq_obj)
  then have nn: "\<not> nullish ?d" by (rule is_obj_not_nullish)
  have na: "\<not> nullish a" using a(1) by (rule is_obj_not_nullish)
  have "\<exists>s1. remind cfg a s = push_caught cfg ?n s1
      \<and> disk s1 = Text (elem_json (JSON_stringify ?d'))
      \<and> reads s1 = Suc (Suc (reads s)) \<and> clock s1 = clock s
      \<and> out s1 = out s @ [Emit ''appointmentReminder'' (VObj [(''appointment'', a)]),
                           Emit ''notification'' ?n]"
    using nn na db array_seq_field [OF ns]
    apply (simp add: remind_def run_defs get_field set_field_eq with_field_not_undef
        Let_def writeDB_eq reminder_def
        del: get.simps set_field.simps to_string.simps JSON_stringify.simps)
    apply (intro conjI impI exI)
        apply (rule refl)
       apply simp_all
    done
  then obtain s1 where run: "remind cfg a s = push_caught cfg ?n s1"
    and s1: "disk s1 = Text (elem_json (JSON_stringify ?d'))"
      "reads s1 = Suc (Suc (reads s))" "clock s1 = clock s"
      "out s1 = out s @ [Emit ''appointmentReminder'' (VObj [(''appointment'', a)]),
                           Emit ''notification'' ?n]"
    by blast
  have rep: "representable ?d'"
    using a(2) representable_seq_of [OF representable_document, of s "''notifications''"]
    by (intro representable_with_field representable_document)
       (simp add: representable_reminder)
  have doc1: "document s1 = ?d'"
    using s1(1) rep by (simp add: document_written saved_representable)
  note fr = push_caught_frame [of cfg ?n s1]
  have "disk (snd (remind cfg a s)) = Text (text_of s1)" by (simp add: run fr)
  then have doc: "document (snd (remind cfg a s)) = ?d'"
    using doc1 by (simp add: document_loaded)
  have "db (snd (remind cfg a s)) = document s1" by (simp add: run fr)
  with doc doc1 have 2: "db (snd (remind cfg a s)) = document (snd (remind cfg a s))" by simp
  have 5: "emitted (out (snd (remind cfg a s))) = emitted (out s) @ broadcasts ?n"
    by (simp add: run fr s1 trace_append broadcasts_def field_reminder)
  have 6: "dispatched (out (snd (remind cfg a s))) = dispatched (out s) @ [?n]"
    by (simp add: run fr s1 trace_append)
  from doc 2 5 6 show ?thesis by (simp add: run fr s1)
qed

lemma forEach_remind:
  assumes "db s = document s"
    and "array_seq (document s) ''notifications''"
    and "list_all is_obj as" and "list_all representable as"
  shows "fst (forEach (remind cfg) as s) = Some ()
    \<and> seq_of (document (snd (forEach (remind cfg) as s))) ''notifications''
        = seq_of (document s) ''notifications'' @ reminders (clock s) (reads s) as
    \<and> (\<forall>k. k \<noteq> ''notifications'' \<longrightarrow>
          field (document (snd (forEach (remind cfg) as s))) k = field (document s) k)
    \<and> emitted (out (snd (forEach (remind cfg) as s)))
        = emitted (out s) @ concat (map broadcasts (reminders (clock s) (reads s) as))
    \<and> dispatched (out (snd (forEach (remind cfg) as s)))
        = dispatched (out s) @ reminders (clock s) (reads s) as"
  using assms
proof (induction as arbitrary: s)
  case Nil
  show ?case by (simp add: ret_def)
next
  case (Cons a as)
  let ?n = "reminder a (clock s (reads s)) (clock s (Suc (reads s)))"
  from Cons.prems have a: "is_obj a" "representable a" by simp_all
  obtain r s1 where r1: "remind cfg a s = (r, s1)" by (cases "remind cfg a s")
  from remind_step [OF Cons.prems(1,2) a, of cfg]
  have step: "r = Some ()" "db s1 = document s1"
    "document s1 = with_field (document s) ''notifications''
         (VArr (seq_of (document s) ''notifications'' @ [?n]))"
    "reads s1 = Suc (Suc (reads s))" "clock s1 = clock s"
    "emitted (out s1) = emitted (out s) @ broadcasts ?n"
    "dispatched (out s1) = dispatched (out s) @ [?n]"
    unfolding r1 by simp_all
  have obj: "is_obj (document s)" using Cons.prems(2) by (rule array_seq_obj)
  have objs: "list_all is_obj (seq_of (document s) ''notifications'' @ [?n])"
    using Cons.prems(2) by (simp add: entity_seq_objs array_seq_entity is_obj_reminder)
  have seq1: "seq_of (document s1) ''notifications'' = seq_of (document s) ''notifications'' @ [?n]"
    using obj by (simp add: step(3) seq_of_with_field)
  have arr1: "array_seq (document s1) ''notifications''"
    using obj objs by (simp add: step(3) array_seq_with_field)
  have other1: "\<forall>k. k \<noteq> ''notifications'' \<longrightarrow> field (document s1) k = field (document s) k"
    using obj by (simp add: step(3) field_with_field)
  from Cons.prems have rest: "list_all is_obj as" "list_all representable as" by simp_all
  note ih = Cons.IH [OF step(2) arr1 rest]
  have run: "forEach (remind cfg) (a # as) s = forEach (remind cfg) as s1"
    by (simp add: bind_def r1 step(1))
  from ih show ?case
    unfolding run by (simp add: seq1 other1 step(4,5,6,7))
qed

lemma tick_run:
  assumes "entity_seq (document s) ''appointments''"
    and "list_all numeric_time (seq_of (document s) ''appointments'')"
    and "0 \<le> clock s (reads s)"
  shows "tick cfg s = forEach (remind cfg)
      (filter (in_window (clock s (reads s))) (seq_of (document s) ''appointments''))
      (s\<lparr>disk := Text (text_of s), db := document s, reads := Suc (reads s)\<rparr>)"
proof -
  let ?d = "document s"
  from assms(1) have nn: "\<not> nullish ?d"
    by (simp add: entity_seq_def is_obj_not_nullish)
  note objs = entity_seq_objs [OF assms(1)]
  show ?thesis
  proof (cases "field ?d ''appointments''")
    case (VArr xs)
    then have "seq_of ?d ''appointments'' = xs" by (simp add: seq_of_def)
    with VArr nn objs assms(2,3) show ?thesis
      by (simp add: tick_def run_defs get_field filter_list_due del: get.simps)
  qed (use assms(1) nn in \<open>simp_all add: tick_def run_defs get_field entity_seq_def seq_of_def
         del: get.simps\<close>)
qed

text \<open>
  Claim C2. One tick of the scanner, on a document whose notifications are an array of
  entities and whose appointments are a sequence of entities with a number (or nothing)
  as \<open>time\<close>, the clock not before the epoch. The filter selects exactly the appointments
  whose time lies in \<open>(now, now + 60000]\<close>. The tick completes; the stored notification
  sequence afterwards is the old one followed by one notification per selected appointment,
  in order, each carrying its appointment; for each of them \<open>appointmentReminder\<close> and
  \<open>notification\<close> are broadcast, and the push dispatcher is called with it.
\<close>

theorem scanner_reminds_window:
  fixes s :: state and cfg :: config
  defines "now \<equiv> clock s (reads s)"
  defines "soon \<equiv> filter (in_window now) (seq_of (document s) ''appointments'')"
  defines "new \<equiv> reminders (clock s) (Suc (reads s)) soon"
  assumes "array_seq (document s) ''notifications''"
    and "entity_seq (document s) ''appointments''"
    and "list_all numeric_time (seq_of (document s) ''appointments'')"
    and "0 \<le> clock s (reads s)"
  shows "filter_list (due cfg now) (seq_of (document s) ''appointments'') = Some soon
    \<and> fst (tick cfg s) = Some ()
    \<and> seq_of (document (snd (tick cfg s))) ''notifications''
        = seq_of (document s) ''notifications'' @ new
    \<and> map (\<lambda>n. field n ''appointment'') new = soon
    \<and> emitted (out (snd (tick cfg s))) = emitted (out s) @ concat (map broadcasts new)
    \<and> dispatched (out (snd (tick cfg s))) = dispatched (out s) @ new"
proof -
  let ?d = "document s"
  let ?s0 = "s\<lparr>disk := Text (text_of s), db := document s, reads := Suc (reads s)\<rparr>"
  note objs = entity_seq_objs [OF assms(5)]
  have 1: "filter_list (due cfg now) (seq_of ?d ''appointments'') = Some soon"
    using objs assms(6,7) by (simp add: filter_list_due now_def soon_def)
  have run: "tick cfg s = forEach (remind cfg) soon ?s0"
    using assms(5,6,7) by (simp add: tick_run now_def soon_def)
  have doc0: "document ?s0 = ?d"
    by simp
  have "list_all representable (seq_of ?d ''appointments'')"
    by (simp add: representable_seq_of representable_document)
  then have rep: "list_all representable soon" by (simp add: soon_def list_all_iff)
  from objs have obs: "list_all is_obj soon" by (simp add: soon_def list_all_iff)
  have "db ?s0 = document ?s0" by (simp add: doc0)
  moreover have "array_seq (document ?s0) ''notifications''"
    using assms(4) by (simp add: doc0)
  ultimately have loop: "fst (forEach (remind cfg) soon ?s0) = Some ()
    \<and> seq_of (document (snd (forEach (remind cfg) soon ?s0))) ''notifications''
        = seq_of (document ?s0) ''notifications'' @ reminders (clock ?s0) (reads ?s0) soon
    \<and> (\<forall>k. k \<noteq> ''notifications'' \<longrightarrow>
          field (document (snd (forEach (remind cfg) soon ?s0))) k = field (document ?s0) k)
    \<and> emitted (out (snd (forEach (remind cfg) soon ?s0)))
        = emitted (out ?s0) @ concat (map broadcasts (reminders (clock ?s0) (reads ?s0) soon))
    \<and> dispatched (out (snd (forEach (remind cfg) soon ?s0)))
        = dispatched (out ?s0) @ reminders (clock ?s0) (reads ?s0) soon"
    using obs rep by (rule forEach_remind)
  have new: "reminders (clock ?s0) (reads ?s0) soon = new" by (simp add: new_def)
  have 4: "map (\<lambda>n. field n ''appointment'') (reminders ck r as) = as" for ck r as
    by (induction as arbitrary: r) (simp_all add: field_reminder)
  from 1 loop 4 show ?thesis
    unfolding run new doc0 by (simp add: new_def)
qed

theorem scanner_reminds_window_witness:
  "array_seq (document sample_state) ''notifications''
   \<and> entity_seq (document sample_state) ''appointments''
   \<and> list_all numeric_time (seq_of (document sample_state) ''appointments'')
   \<and> 0 \<le> clock sample_state (reads sample_state)
   \<and> fst (tick with_keys sample_state) = Some ()
   \<and> map (\<lambda>n. field n ''appointment'')
        (drop 2 (seq_of (document (snd (tick with_keys sample_state))) ''notifications''))
       = [VObj [(''id'', VStr ''31''), (''title'', VStr ''Doctor''), (''time'', VNum 5030)]]
   \<and> length (dispatched (out (snd (tick with_keys sample_state)))) = 1"
proof -
  have a: "array_seq (document sample_state) ''notifications''" by code_simp
  have b: "entity_seq (document sample_state) ''appointments''" by code_simp
  have c: "list_all numeric_time (seq_of (document sample_state) ''appointments'')" by code_simp
  have d: "0 \<le> clock sample_state (reads sample_state)" by code_simp
  have e: "filter (in_window (clock sample_state (reads sample_state)))
        (seq_of (document sample_state) ''appointments'')
      = [VObj [(''id'', VStr ''31''), (''title'', VStr ''Doctor''), (''time'', VNum 5030)]]"
    by code_simp
  have l: "length (seq_of (document sample_state) ''notifications'') = 2" by code_simp
  from scanner_reminds_window [OF a b c d, of with_keys] a b c d l
  show ?thesis unfolding e by (simp add: sample_out field_reminder)
qed

end
